theory Spec2Isabelle
  imports Main "HOL-Library.Multiset" "HOL-Library.Sublist"
begin

section \<open>The dispatch queue of examples/cpp/dispatch.cpp\<close>

text \<open>
  The class \<open>dispatch_queue\<close> owns a mutex \<open>lock_\<close>, a vector of worker threads
  \<open>threads_\<close>, a FIFO \<open>q_\<close> of tasks, a condition variable \<open>cv_\<close> and a flag \<open>quit_\<close>.
  The code is concurrent, so it is embedded as an interleaving semantics: every thread has
  a program counter that names the source line it is about to execute, one atomic step of
  one thread is a function from the shared state to the next state, and a step that the
  thread cannot take now (the mutex is held, the thread sleeps on the condition variable,
  the joined thread still runs) is \<open>None\<close>. Which thread moves next is the choice of the
  scheduler, given as a list of events.

  A task is an opaque value of type \<open>'a\<close>; calling it is one step of the worker, recorded
  in a log. A task that does not return is a worker that never takes that step; a task that
  throws is outside the model. The output of \<open>printf\<close> is left out.
\<close>

subsection \<open>Threads and their program counters\<close>

datatype tid = Worker nat | Client nat

text \<open>
  A worker runs \<open>dispatch_thread_handler\<close> (lines 94 to 118). The call
  \<open>cv_.wait(lock, pred)\<close> of line 100 is \<open>while (!pred()) wait(lock)\<close>: the predicate
  is evaluated with the mutex held (\<open>W_pred\<close>); if it is false the thread calls
  \<open>wait(lock)\<close> (\<open>W_sleep\<close>), which releases the mutex and blocks (\<open>W_blocked\<close>); a
  notification or a spurious wake-up unblocks it (\<open>W_woken\<close>), it takes the mutex again
  and evaluates the predicate again.
\<close>

datatype 'a wpc =
    W_lock          \<comment> \<open>line 96: about to construct the \<open>unique_lock\<close>\<close>
  | W_pred          \<comment> \<open>line 100: holds the mutex, about to evaluate \<open>q_.size() || quit_\<close>\<close>
  | W_sleep         \<comment> \<open>line 100: predicate was false, about to release the mutex and block\<close>
  | W_blocked       \<comment> \<open>line 100: blocked on \<open>cv_\<close>, mutex released\<close>
  | W_woken         \<comment> \<open>line 100: unblocked, about to take the mutex again\<close>
  | W_if            \<comment> \<open>line 105: holds the mutex, about to test \<open>q_.size()\<close>\<close>
  | W_unlock 'a     \<comment> \<open>line 111: holds the mutex and the task popped in lines 107 and 108\<close>
  | W_call 'a       \<comment> \<open>line 113: about to call the task, mutex released\<close>
  | W_relock        \<comment> \<open>line 115: the task returned, about to take the mutex again\<close>
  | W_while         \<comment> \<open>line 117: holds the mutex, about to test \<open>!quit_\<close>\<close>
  | W_done          \<comment> \<open>line 118: the handler returned\<close>

text \<open>
  A client is a thread that uses the public interface: the two overloads of \<open>dispatch\<close>
  (lines 72 to 81 and 83 to 92) and the destructor (lines 55 to 70).
\<close>

datatype shape = Copy | Move

datatype 'a cpc =
    C_idle             \<comment> \<open>outside every member function\<close>
  | C_lock shape 'a    \<comment> \<open>line 74 or 85: about to construct the \<open>unique_lock\<close>\<close>
  | C_push shape 'a    \<comment> \<open>line 75 or 86: holds the mutex, about to push\<close>
  | C_unlock           \<comment> \<open>line 79 or 90: about to unlock\<close>
  | C_notify           \<comment> \<open>line 80 or 91: about to call \<open>cv_.notify_all()\<close>\<close>
  | D_quit             \<comment> \<open>line 58: about to assign \<open>quit_ = true\<close>\<close>
  | D_join nat         \<comment> \<open>lines 62 to 69: the loop at index \<open>i\<close>\<close>
  | C_gone             \<comment> \<open>line 70: the destructor returned\<close>

subsection \<open>The shared state\<close>

text \<open>
  The fields of the class, without the trailing underscore of the source, then the
  program counters of the clients and three logs that the code does not have: the tasks
  in the order they were pushed, popped and called.
\<close>

record 'a dispatch_queue =
  name :: string
  lock :: "tid option"
  threads :: "'a wpc list"
  q :: "'a list"
  quit :: bool
  clients :: "'a cpc list"
  pushed :: "'a list"
  popped :: "'a list"
  executed :: "'a list"

text \<open>
  The constructor (lines 40 to 53) holds the mutex while it starts \<open>thread_cnt\<close>
  threads, each at the first line of the handler, and releases it when it returns;
  \<open>quit_\<close> is initialised to false (line 35). The count is a \<open>size_t\<close> in the source
  and a natural number here; the queue is unbounded in both. The number of client threads
  is a parameter of the model.
\<close>

definition construct :: "string \<Rightarrow> nat \<Rightarrow> nat \<Rightarrow> 'a dispatch_queue" where
  "construct nm thread_cnt client_cnt =
     \<lparr>name = nm, lock = None, threads = replicate thread_cnt W_lock, q = [], quit = False,
      clients = replicate client_cnt C_idle, pushed = [], popped = [], executed = []\<rparr>"

subsection \<open>The worker: \<open>dispatch_thread_handler\<close>\<close>

definition set_wpc :: "nat \<Rightarrow> 'a wpc \<Rightarrow> 'a dispatch_queue \<Rightarrow> 'a dispatch_queue" where
  "set_wpc i pc s = s\<lparr>threads := (threads s)[i := pc]\<rparr>"

definition dispatch_thread_handler :: "nat \<Rightarrow> 'a dispatch_queue \<Rightarrow> 'a dispatch_queue option" where
  "dispatch_thread_handler i s =
     (if i < length (threads s) then
        (case threads s ! i of
           W_lock \<Rightarrow>
             if lock s = None then Some (set_wpc i W_pred (s\<lparr>lock := Some (Worker i)\<rparr>)) else None
         | W_pred \<Rightarrow>
             if q s \<noteq> [] \<or> quit s then Some (set_wpc i W_if s) else Some (set_wpc i W_sleep s)
         | W_sleep \<Rightarrow> Some (set_wpc i W_blocked (s\<lparr>lock := None\<rparr>))
         | W_blocked \<Rightarrow> None
         | W_woken \<Rightarrow>
             if lock s = None then Some (set_wpc i W_pred (s\<lparr>lock := Some (Worker i)\<rparr>)) else None
         | W_if \<Rightarrow>
             (case q s of
                [] \<Rightarrow> Some (set_wpc i W_while s)
              | op # rest \<Rightarrow> Some (set_wpc i (W_unlock op) (s\<lparr>q := rest, popped := popped s @ [op]\<rparr>)))
         | W_unlock op \<Rightarrow> Some (set_wpc i (W_call op) (s\<lparr>lock := None\<rparr>))
         | W_call op \<Rightarrow> Some (set_wpc i W_relock (s\<lparr>executed := executed s @ [op]\<rparr>))
         | W_relock \<Rightarrow>
             if lock s = None then Some (set_wpc i W_while (s\<lparr>lock := Some (Worker i)\<rparr>)) else None
         | W_while \<Rightarrow>
             if \<not> quit s then Some (set_wpc i W_pred s) else Some (set_wpc i W_done (s\<lparr>lock := None\<rparr>))
         | W_done \<Rightarrow> None)
      else None)"

text \<open>
  The C++ standard lets a thread blocked in \<open>wait\<close> wake up without a notification.
\<close>

definition spurious :: "nat \<Rightarrow> 'a dispatch_queue \<Rightarrow> 'a dispatch_queue option" where
  "spurious i s =
     (if i < length (threads s) \<and> threads s ! i = W_blocked then Some (set_wpc i W_woken s)
      else None)"

subsection \<open>The clients: \<open>dispatch\<close> and the destructor\<close>

fun wake :: "'a wpc \<Rightarrow> 'a wpc" where
  "wake W_blocked = W_woken"
| "wake pc = pc"

definition notify_all :: "'a dispatch_queue \<Rightarrow> 'a dispatch_queue" where
  "notify_all s = s\<lparr>threads := map wake (threads s)\<rparr>"

definition push :: "'a \<Rightarrow> 'a dispatch_queue \<Rightarrow> 'a dispatch_queue" where
  "push op s = s\<lparr>q := q s @ [op], pushed := pushed s @ [op]\<rparr>"

definition set_cpc :: "nat \<Rightarrow> 'a cpc \<Rightarrow> 'a dispatch_queue \<Rightarrow> 'a dispatch_queue" where
  "set_cpc c pc s = s\<lparr>clients := (clients s)[c := pc]\<rparr>"

text \<open>
  One step of a client inside a member function. The copying overload pushes a copy of
  its argument, the moving overload moves its argument into the queue; the queue receives
  the same task. The destructor assigns \<open>quit_\<close>, without taking the mutex (the
  assignment is one atomic step of the model), and then joins the threads by index;
  \<open>join\<close> returns once the thread's handler has returned. Every thread of the vector
  was started by the constructor, so \<open>joinable()\<close> only fails for a thread that was
  already joined, which has returned too.
\<close>

definition client_step :: "nat \<Rightarrow> 'a dispatch_queue \<Rightarrow> 'a dispatch_queue option" where
  "client_step c s =
     (if c < length (clients s) then
        (case clients s ! c of
           C_idle \<Rightarrow> None
         | C_lock sh op \<Rightarrow>
             if lock s = None then Some (set_cpc c (C_push sh op) (s\<lparr>lock := Some (Client c)\<rparr>))
             else None
         | C_push sh op \<Rightarrow>
             (case sh of
                Copy \<Rightarrow> Some (set_cpc c C_unlock (push op s))
              | Move \<Rightarrow> Some (set_cpc c C_unlock (push op s)))
         | C_unlock \<Rightarrow> Some (set_cpc c C_notify (s\<lparr>lock := None\<rparr>))
         | C_notify \<Rightarrow> Some (set_cpc c C_idle (notify_all s))
         | D_quit \<Rightarrow> Some (set_cpc c (D_join 0) (s\<lparr>quit := True\<rparr>))
         | D_join i \<Rightarrow>
             if i < length (threads s) then
               (if threads s ! i = W_done then Some (set_cpc c (D_join (Suc i)) s) else None)
             else Some (set_cpc c C_gone s)
         | C_gone \<Rightarrow> None)
      else None)"

datatype 'a call = Dispatch shape 'a | Destroy

fun entry :: "'a call \<Rightarrow> 'a cpc" where
  "entry (Dispatch sh op) = C_lock sh op"
| "entry Destroy = D_quit"

definition call :: "nat \<Rightarrow> 'a call \<Rightarrow> 'a dispatch_queue \<Rightarrow> 'a dispatch_queue option" where
  "call c f s =
     (if c < length (clients s) \<and> clients s ! c = C_idle then Some (set_cpc c (entry f) s)
      else None)"

subsection \<open>Interleavings\<close>

datatype 'a event = Sched tid | Spurious nat | Call nat "'a call"

fun step :: "'a event \<Rightarrow> 'a dispatch_queue \<Rightarrow> 'a dispatch_queue option" where
  "step (Sched (Worker i)) s = dispatch_thread_handler i s"
| "step (Sched (Client c)) s = client_step c s"
| "step (Spurious i) s = spurious i s"
| "step (Call c f) s = call c f s"

fun run :: "'a event list \<Rightarrow> 'a dispatch_queue \<Rightarrow> 'a dispatch_queue option" where
  "run [] s = Some s"
| "run (e # es) s = (case step e s of None \<Rightarrow> None | Some s' \<Rightarrow> run es s')"

text \<open>
  A client that calls \<open>dispatch\<close> and runs it to its return before any other thread
  moves.
\<close>

definition submit :: "nat \<Rightarrow> shape \<Rightarrow> 'a \<Rightarrow> 'a event list" where
  "submit c sh op = Call c (Dispatch sh op) # replicate 4 (Sched (Client c))"

subsection \<open>What the logs and the program counters say\<close>

text \<open>The task a worker has popped and not yet finished calling.\<close>

fun held :: "'a wpc \<Rightarrow> 'a list" where
  "held (W_unlock op) = [op]"
| "held (W_call op) = [op]"
| "held pc = []"

definition inflight :: "'a wpc list \<Rightarrow> 'a list" where
  "inflight ws = concat (map held ws)"

text \<open>The task a client has passed to \<open>dispatch\<close> and not yet pushed.\<close>

fun pend :: "'a cpc \<Rightarrow> 'a list" where
  "pend (C_lock sh op) = [op]"
| "pend (C_push sh op) = [op]"
| "pend pc = []"

definition pending :: "'a cpc list \<Rightarrow> 'a list" where
  "pending cs = concat (map pend cs)"

text \<open>The tasks passed to \<open>dispatch\<close> in a list of events, in the order of the calls.\<close>

fun submitted :: "'a event \<Rightarrow> 'a list" where
  "submitted (Call c (Dispatch sh op)) = [op]"
| "submitted e = []"

definition submissions :: "'a event list \<Rightarrow> 'a list" where
  "submissions es = concat (map submitted es)"

text \<open>The program counters at which a thread owns the mutex.\<close>

fun w_holds :: "'a wpc \<Rightarrow> bool" where
  "w_holds W_pred = True"
| "w_holds W_sleep = True"
| "w_holds W_if = True"
| "w_holds (W_unlock op) = True"
| "w_holds W_while = True"
| "w_holds pc = False"

fun c_holds :: "'a cpc \<Rightarrow> bool" where
  "c_holds (C_push sh op) = True"
| "c_holds C_unlock = True"
| "c_holds pc = False"

definition lock_inv :: "'a dispatch_queue \<Rightarrow> bool" where
  "lock_inv s =
     ((\<forall>i < length (threads s). w_holds (threads s ! i) \<longrightarrow> lock s = Some (Worker i)) \<and>
      (\<forall>c < length (clients s). c_holds (clients s ! c) \<longrightarrow> lock s = Some (Client c)))"

text \<open>What the destructor has established when it is at a given line.\<close>

fun joined :: "'a wpc list \<Rightarrow> 'a cpc \<Rightarrow> bool" where
  "joined ws (D_join i) = (\<forall>j < i. j < length ws \<longrightarrow> ws ! j = W_done)"
| "joined ws C_gone = (\<forall>j < length ws. ws ! j = W_done)"
| "joined ws pc = True"

definition join_inv :: "'a dispatch_queue \<Rightarrow> bool" where
  "join_inv s = (\<forall>c < length (clients s). joined (threads s) (clients s ! c))"

definition fifo_inv :: "'a dispatch_queue \<Rightarrow> bool" where
  "fifo_inv s = (pushed s = popped s @ q s)"

definition once_inv :: "'a dispatch_queue \<Rightarrow> bool" where
  "once_inv s = (mset (popped s) = mset (executed s) + mset (inflight (threads s)))"

definition one_worker_inv :: "'a dispatch_queue \<Rightarrow> bool" where
  "one_worker_inv s =
     (length (threads s) \<le> 1 \<and> popped s = executed s @ inflight (threads s))"

definition no_worker_inv :: "'a dispatch_queue \<Rightarrow> bool" where
  "no_worker_inv s = (threads s = [] \<and> popped s = [] \<and> executed s = [])"

text \<open>
  For the pool used by one client thread: the worker is past the body of its loop
  (\<open>past_body\<close>), the worker has called a task and is about to take the mutex again
  (\<open>relocking\<close>), the client is in or after the destructor (\<open>closed_pc\<close>).
\<close>

fun past_body :: "'a wpc \<Rightarrow> nat" where
  "past_body W_relock = 1"
| "past_body W_while = 1"
| "past_body W_done = 1"
| "past_body pc = 0"

fun relocking :: "'a wpc \<Rightarrow> nat" where
  "relocking W_relock = 1"
| "relocking pc = 0"

fun closed_pc :: "'a cpc \<Rightarrow> bool" where
  "closed_pc (D_join i) = True"
| "closed_pc C_gone = True"
| "closed_pc pc = False"

definition closed_inv :: "'a dispatch_queue \<Rightarrow> bool" where
  "closed_inv s = (\<exists>pc. clients s = [pc] \<and> (quit s \<longrightarrow> closed_pc pc))"

definition nodone_inv :: "'a dispatch_queue \<Rightarrow> bool" where
  "nodone_inv s = (\<not> quit s \<longrightarrow> (\<forall>j < length (threads s). threads s ! j \<noteq> W_done))"

definition relock_inv :: "'a dispatch_queue \<Rightarrow> bool" where
  "relock_inv s = (sum_list (map relocking (threads s)) \<le> length (executed s))"

definition past_inv :: "'a dispatch_queue \<Rightarrow> bool" where
  "past_inv s = (q s = [] \<or> sum_list (map past_body (threads s)) \<le> length (executed s))"

definition drain_inv :: "'a dispatch_queue \<Rightarrow> bool" where
  "drain_inv s = (lock_inv s \<and> closed_inv s \<and> nodone_inv s \<and> relock_inv s \<and> past_inv s)"

definition count_inv :: "nat \<Rightarrow> 'a dispatch_queue \<Rightarrow> bool" where
  "count_inv n s = (length (threads s) = n)"

text \<open>
  The two overloads are told apart by the tag \<open>shape\<close> of the client's program counter;
  \<open>forget\<close> erases the tag and nothing else.
\<close>

fun unshape :: "'a cpc \<Rightarrow> 'a cpc" where
  "unshape (C_lock sh op) = C_lock Copy op"
| "unshape (C_push sh op) = C_push Copy op"
| "unshape pc = pc"

definition forget :: "'a dispatch_queue \<Rightarrow> 'a dispatch_queue" where
  "forget s = s\<lparr>clients := map unshape (clients s)\<rparr>"

section \<open>Lemmas about single steps\<close>

lemmas step_defs = dispatch_thread_handler_def client_step_def call_def spurious_def
  set_wpc_def set_cpc_def push_def notify_all_def

lemma run_invariant:
  assumes "\<And>e s s'. P s \<Longrightarrow> step e s = Some s' \<Longrightarrow> P s'"
  shows "P s \<Longrightarrow> run es s = Some s' \<Longrightarrow> P s'"
proof (induction es arbitrary: s)
  case Nil
  then show ?case by simp
next
  case (Cons e es)
  then show ?case using assms by (auto split: option.splits)
qed

lemma step_cases [consumes 1, case_names worker client spur call]:
  assumes "step e s = Some s'"
  obtains i where "e = Sched (Worker i)" "dispatch_thread_handler i s = Some s'"
  | c where "e = Sched (Client c)" "client_step c s = Some s'"
  | i where "e = Spurious i" "i < length (threads s)" "threads s ! i = W_blocked"
      "s' = set_wpc i W_woken s"
  | c f where "e = Call c f" "c < length (clients s)" "clients s ! c = C_idle"
      "s' = set_cpc c (entry f) s"
proof (cases e)
  case (Sched t)
  with assms that(1,2) show ?thesis by (cases t) simp_all
next
  case (Spurious i)
  with assms that(3) show ?thesis by (simp add: spurious_def split: if_splits)
next
  case (Call c f)
  with assms that(4) show ?thesis by (simp add: call_def split: if_splits)
qed

lemma nth_upd: "xs[i := x] ! j = (if i = j \<and> i < length xs then x else xs ! j)"
  by (cases "i < length xs") (simp_all add: nth_list_update list_update_beyond not_less)

lemma mset_concat_update:
  "i < length xs \<Longrightarrow>
   mset (concat (map f (xs[i := y]))) + mset (f (xs ! i)) = mset (concat (map f xs)) + mset (f y)"
proof (induction xs arbitrary: i)
  case Nil
  then show ?case by simp
next
  case (Cons x xs)
  show ?case
  proof (cases i)
    case 0
    then show ?thesis by simp
  next
    case (Suc j)
    with Cons.prems have "j < length xs" by simp
    from Cons.IH[OF this] Suc show ?thesis by simp
  qed
qed

lemma held_wake: "held (wake pc) = held pc"
  by (cases pc) simp_all

lemma w_holds_wake: "w_holds (wake pc) = w_holds pc"
  by (cases pc) simp_all

lemma wake_done: "(wake pc = W_done) = (pc = W_done)"
  by (cases pc) simp_all

lemma inflight_wake: "inflight (map wake ws) = inflight ws"
  by (induction ws) (simp_all add: inflight_def held_wake)

lemma inflight_done: "\<forall>i < length ws. ws ! i = W_done \<Longrightarrow> inflight ws = []"
  by (auto simp: inflight_def in_set_conv_nth)

lemma inflight_start: "inflight (replicate n W_lock) = []"
  by (induction n) (simp_all add: inflight_def)

lemma pending_start: "pending (replicate k C_idle) = []"
  by (induction k) (simp_all add: pending_def)

lemma worker_keeps:
  assumes "dispatch_thread_handler i s = Some s'"
  shows "pushed s' = pushed s \<and> clients s' = clients s"
  using assms
  by (cases "threads s ! i"; cases "q s")
     (auto simp: dispatch_thread_handler_def set_wpc_def split: if_splits)

lemma client_threads:
  assumes "client_step c s = Some s'"
  shows "threads s' = threads s \<or> threads s' = map wake (threads s)"
proof (cases "clients s ! c")
  case (C_push sh op)
  with assms show ?thesis
    by (cases sh) (auto simp: client_step_def set_cpc_def push_def split: if_splits)
qed (use assms in \<open>auto simp: client_step_def set_cpc_def notify_all_def split: if_splits\<close>)

subsection \<open>The queue holds the pushed tasks that were not popped, in order\<close>

lemma fifo_inv_step:
  assumes "fifo_inv s" "step e s = Some s'"
  shows "fifo_inv s'"
  using assms(2)
proof (cases rule: step_cases)
  case (worker i)
  with assms(1) show ?thesis
    by (cases "threads s ! i"; cases "q s")
       (auto simp: fifo_inv_def dispatch_thread_handler_def set_wpc_def split: if_splits)
next
  case (client c)
  show ?thesis
  proof (cases "clients s ! c")
    case (C_push sh op)
    with assms(1) client show ?thesis
      by (cases sh) (auto simp: fifo_inv_def client_step_def set_cpc_def push_def split: if_splits)
  qed (use assms(1) client in \<open>auto simp: fifo_inv_def client_step_def set_cpc_def notify_all_def
         split: if_splits\<close>)
next
  case (spur i)
  with assms(1) show ?thesis by (simp add: fifo_inv_def set_wpc_def)
next
  case (call c f)
  with assms(1) show ?thesis by (simp add: fifo_inv_def set_cpc_def)
qed

lemma fifo_inv_construct: "fifo_inv (construct nm n k)"
  by (simp add: fifo_inv_def construct_def)

subsection \<open>A popped task is held by one worker or was executed\<close>

lemma once_inv_worker:
  assumes "once_inv s" "dispatch_thread_handler i s = Some s'"
  shows "once_inv s'"
proof -
  from assms(2) have i: "i < length (threads s)"
    by (auto simp: dispatch_thread_handler_def split: if_splits)
  note u = mset_concat_update[OF i, of held]
  show ?thesis
  proof (cases "threads s ! i")
    case W_lock
    with assms i u[of W_pred] show ?thesis
      by (auto simp: once_inv_def inflight_def dispatch_thread_handler_def set_wpc_def split: if_splits)
  next
    case W_pred
    with assms i u[of W_if] u[of W_sleep] show ?thesis
      by (auto simp: once_inv_def inflight_def dispatch_thread_handler_def set_wpc_def split: if_splits)
  next
    case W_sleep
    with assms i u[of W_blocked] show ?thesis
      by (auto simp: once_inv_def inflight_def dispatch_thread_handler_def set_wpc_def)
  next
    case W_blocked
    with assms i show ?thesis by (simp add: dispatch_thread_handler_def)
  next
    case W_woken
    with assms i u[of W_pred] show ?thesis
      by (auto simp: once_inv_def inflight_def dispatch_thread_handler_def set_wpc_def split: if_splits)
  next
    case W_if
    show ?thesis
    proof (cases "q s")
      case Nil
      with W_if assms i u[of W_while] show ?thesis
        by (auto simp: once_inv_def inflight_def dispatch_thread_handler_def set_wpc_def)
    next
      case (Cons op rest)
      with W_if assms i u[of "W_unlock op"] show ?thesis
        by (auto simp: once_inv_def inflight_def dispatch_thread_handler_def set_wpc_def)
    qed
  next
    case (W_unlock op)
    with assms i u[of "W_call op"] show ?thesis
      by (auto simp: once_inv_def inflight_def dispatch_thread_handler_def set_wpc_def)
  next
    case (W_call op)
    with assms i u[of W_relock] show ?thesis
      by (auto simp: once_inv_def inflight_def dispatch_thread_handler_def set_wpc_def)
  next
    case W_relock
    with assms i u[of W_while] show ?thesis
      by (auto simp: once_inv_def inflight_def dispatch_thread_handler_def set_wpc_def split: if_splits)
  next
    case W_while
    with assms i u[of W_pred] u[of W_done] show ?thesis
      by (auto simp: once_inv_def inflight_def dispatch_thread_handler_def set_wpc_def split: if_splits)
  next
    case W_done
    with assms i show ?thesis by (simp add: dispatch_thread_handler_def)
  qed
qed

lemma once_inv_step:
  assumes "once_inv s" "step e s = Some s'"
  shows "once_inv s'"
  using assms(2)
proof (cases rule: step_cases)
  case (worker i)
  with assms(1) show ?thesis by (simp add: once_inv_worker)
next
  case (client c)
  show ?thesis
  proof (cases "clients s ! c")
    case (C_push sh op)
    with assms(1) client show ?thesis
      by (cases sh) (auto simp: once_inv_def client_step_def set_cpc_def push_def split: if_splits)
  qed (use assms(1) client in \<open>auto simp: once_inv_def client_step_def set_cpc_def notify_all_def
         inflight_wake split: if_splits\<close>)
next
  case (spur i)
  with assms(1) mset_concat_update[of i "threads s" held W_woken] show ?thesis
    by (simp add: once_inv_def inflight_def set_wpc_def)
next
  case (call c f)
  with assms(1) show ?thesis by (simp add: once_inv_def set_cpc_def)
qed

lemma once_inv_construct: "once_inv (construct nm n k)"
  by (simp add: once_inv_def construct_def inflight_start)

subsection \<open>The mutex is owned by the thread that is at a line under it\<close>

lemma lock_inv_fields [simp]:
  "lock_inv (s\<lparr>q := a\<rparr>) = lock_inv s"
  "lock_inv (s\<lparr>quit := b\<rparr>) = lock_inv s"
  "lock_inv (s\<lparr>pushed := a\<rparr>) = lock_inv s"
  "lock_inv (s\<lparr>popped := a\<rparr>) = lock_inv s"
  "lock_inv (s\<lparr>executed := a\<rparr>) = lock_inv s"
  by (simp_all add: lock_inv_def)

lemma lock_inv_keep_w:
  "lock_inv s \<Longrightarrow> w_holds pc \<longrightarrow> w_holds (threads s ! i) \<Longrightarrow> lock_inv (set_wpc i pc s)"
  by (auto simp: lock_inv_def set_wpc_def nth_upd)

lemma lock_inv_acquire_w:
  "lock_inv s \<Longrightarrow> lock s = None \<Longrightarrow> lock_inv (set_wpc i pc (s\<lparr>lock := Some (Worker i)\<rparr>))"
  by (auto simp: lock_inv_def set_wpc_def nth_upd)

lemma lock_inv_release_w:
  assumes "lock_inv s" "i < length (threads s)" "w_holds (threads s ! i)" "\<not> w_holds pc"
  shows "lock_inv (set_wpc i pc (s\<lparr>lock := None\<rparr>))"
proof -
  from assms have l: "lock s = Some (Worker i)" by (simp add: lock_inv_def)
  with assms(1) have "\<forall>j < length (threads s). w_holds (threads s ! j) \<longrightarrow> j = i"
    and "\<forall>c < length (clients s). \<not> c_holds (clients s ! c)"
    by (simp_all add: lock_inv_def)
  with assms(4) show ?thesis
    by (auto simp: lock_inv_def set_wpc_def nth_upd)
qed

lemma lock_inv_keep_c:
  "lock_inv s \<Longrightarrow> c_holds pc \<longrightarrow> c_holds (clients s ! c) \<Longrightarrow> lock_inv (set_cpc c pc s)"
  by (auto simp: lock_inv_def set_cpc_def nth_upd)

lemma lock_inv_acquire_c:
  "lock_inv s \<Longrightarrow> lock s = None \<Longrightarrow> lock_inv (set_cpc c pc (s\<lparr>lock := Some (Client c)\<rparr>))"
  by (auto simp: lock_inv_def set_cpc_def nth_upd)

lemma lock_inv_release_c:
  assumes "lock_inv s" "c < length (clients s)" "c_holds (clients s ! c)" "\<not> c_holds pc"
  shows "lock_inv (set_cpc c pc (s\<lparr>lock := None\<rparr>))"
proof -
  from assms have l: "lock s = Some (Client c)" by (simp add: lock_inv_def)
  with assms(1) have "\<forall>j < length (clients s). c_holds (clients s ! j) \<longrightarrow> j = c"
    and "\<forall>i < length (threads s). \<not> w_holds (threads s ! i)"
    by (simp_all add: lock_inv_def)
  with assms(4) show ?thesis
    by (auto simp: lock_inv_def set_cpc_def nth_upd)
qed

lemma lock_inv_notify: "lock_inv s \<Longrightarrow> lock_inv (notify_all s)"
  by (simp add: lock_inv_def notify_all_def w_holds_wake)

lemma lock_inv_worker:
  assumes "lock_inv s" "dispatch_thread_handler i s = Some s'"
  shows "lock_inv s'"
proof -
  from assms(2) have i: "i < length (threads s)"
    by (simp add: dispatch_thread_handler_def split: if_splits)
  show ?thesis
  proof (cases "threads s ! i")
    case W_if
    with assms i show ?thesis
      by (cases "q s") (auto simp: dispatch_thread_handler_def lock_inv_keep_w)
  qed (use assms i in \<open>auto simp: dispatch_thread_handler_def lock_inv_keep_w lock_inv_acquire_w
         lock_inv_release_w split: if_splits\<close>)
qed

lemma lock_inv_client:
  assumes "lock_inv s" "client_step c s = Some s'"
  shows "lock_inv s'"
proof -
  from assms(2) have c: "c < length (clients s)"
    by (simp add: client_step_def split: if_splits)
  show ?thesis
  proof (cases "clients s ! c")
    case (C_push sh op)
    with assms c show ?thesis
      by (cases sh) (auto simp: client_step_def push_def lock_inv_keep_c)
  qed (use assms c in \<open>auto simp: client_step_def lock_inv_keep_c lock_inv_acquire_c
         lock_inv_release_c lock_inv_notify split: if_splits\<close>)
qed

lemma lock_inv_step:
  assumes "lock_inv s" "step e s = Some s'"
  shows "lock_inv s'"
  using assms(2)
proof (cases rule: step_cases)
  case (worker i)
  with assms(1) show ?thesis by (simp add: lock_inv_worker)
next
  case (client c)
  with assms(1) show ?thesis by (simp add: lock_inv_client)
next
  case (spur i)
  with assms(1) show ?thesis by (simp add: lock_inv_keep_w)
next
  case (call c f)
  with assms(1) show ?thesis by (cases f) (simp_all add: lock_inv_keep_c)
qed

lemma lock_inv_construct: "lock_inv (construct nm n k)"
  by (simp add: lock_inv_def construct_def)

subsection \<open>The destructor passes index \<open>i\<close> only after thread \<open>i\<close> returned\<close>

lemma join_inv_fields [simp]:
  "join_inv (s\<lparr>q := a\<rparr>) = join_inv s"
  "join_inv (s\<lparr>quit := b\<rparr>) = join_inv s"
  "join_inv (s\<lparr>lock := l\<rparr>) = join_inv s"
  "join_inv (s\<lparr>pushed := a\<rparr>) = join_inv s"
  "join_inv (s\<lparr>popped := a\<rparr>) = join_inv s"
  "join_inv (s\<lparr>executed := a\<rparr>) = join_inv s"
  by (simp_all add: join_inv_def)

lemma joined_update:
  "joined ws pc \<Longrightarrow> i < length ws \<Longrightarrow> ws ! i \<noteq> W_done \<Longrightarrow> joined (ws[i := pc']) pc"
  by (cases pc) (auto simp: nth_upd)

lemma joined_wake: "joined ws pc \<Longrightarrow> joined (map wake ws) pc"
  by (cases pc) auto

lemma join_inv_set_wpc:
  "join_inv s \<Longrightarrow> i < length (threads s) \<Longrightarrow> threads s ! i \<noteq> W_done \<Longrightarrow>
   join_inv (set_wpc i pc s)"
  by (simp add: join_inv_def set_wpc_def joined_update)

lemma join_inv_set_cpc:
  "join_inv s \<Longrightarrow> joined (threads s) pc \<Longrightarrow> join_inv (set_cpc c pc s)"
  by (simp add: join_inv_def set_cpc_def nth_upd)

lemma join_inv_notify: "join_inv s \<Longrightarrow> join_inv (notify_all s)"
  by (simp add: join_inv_def notify_all_def joined_wake)

lemma join_inv_worker:
  assumes "join_inv s" "dispatch_thread_handler i s = Some s'"
  shows "join_inv s'"
proof -
  from assms(2) have i: "i < length (threads s)"
    by (simp add: dispatch_thread_handler_def split: if_splits)
  show ?thesis
  proof (cases "threads s ! i")
    case W_if
    with assms i show ?thesis
      by (cases "q s") (auto simp: dispatch_thread_handler_def join_inv_set_wpc)
  qed (use assms i in \<open>auto simp: dispatch_thread_handler_def join_inv_set_wpc split: if_splits\<close>)
qed

lemma join_inv_client:
  assumes "join_inv s" "client_step c s = Some s'"
  shows "join_inv s'"
proof -
  from assms(2) have c: "c < length (clients s)"
    by (simp add: client_step_def split: if_splits)
  with assms(1) have j: "joined (threads s) (clients s ! c)"
    by (simp add: join_inv_def)
  show ?thesis
  proof (cases "clients s ! c")
    case (C_push sh op)
    with assms c show ?thesis
      by (cases sh) (auto simp: client_step_def push_def join_inv_set_cpc)
  next
    case (D_join i)
    with assms c j show ?thesis
      by (auto simp: client_step_def less_Suc_eq not_less split: if_splits intro!: join_inv_set_cpc)
  qed (use assms c in \<open>auto simp: client_step_def join_inv_set_cpc join_inv_notify
         split: if_splits\<close>)
qed

lemma join_inv_step:
  assumes "join_inv s" "step e s = Some s'"
  shows "join_inv s'"
  using assms(2)
proof (cases rule: step_cases)
  case (worker i)
  with assms(1) show ?thesis by (simp add: join_inv_worker)
next
  case (client c)
  with assms(1) show ?thesis by (simp add: join_inv_client)
next
  case (spur i)
  with assms(1) show ?thesis by (simp add: join_inv_set_wpc)
next
  case (call c f)
  with assms(1) show ?thesis by (cases f) (simp_all add: join_inv_set_cpc)
qed

lemma join_inv_construct: "join_inv (construct nm n k)"
  by (simp add: join_inv_def construct_def)

subsection \<open>A worker leaves its loop at line 117 only\<close>

lemma exit_worker:
  assumes "dispatch_thread_handler j s = Some s'" "i < length (threads s)"
    "threads s ! i \<noteq> W_done" "threads s' ! i = W_done"
  shows "j = i \<and> threads s ! i = W_while \<and> quit s \<and> lock s' = None"
proof -
  from assms(1) have j: "j < length (threads s)"
    by (simp add: dispatch_thread_handler_def split: if_splits)
  from assms(1) obtain pc' where "threads s' = (threads s)[j := pc']"
    by (cases "threads s ! j"; cases "q s")
       (auto simp: dispatch_thread_handler_def set_wpc_def split: if_splits)
  with assms(3,4) j have ji: "j = i" by (auto simp: nth_upd split: if_splits)
  with assms show ?thesis
    by (cases "threads s ! i"; cases "q s")
       (auto simp: dispatch_thread_handler_def set_wpc_def split: if_splits)
qed

lemma exit_step:
  assumes "step e s = Some s'" "i < length (threads s)"
    "threads s ! i \<noteq> W_done" "threads s' ! i = W_done"
  shows "e = Sched (Worker i) \<and> threads s ! i = W_while \<and> quit s \<and> lock s' = None"
  using assms(1)
proof (cases rule: step_cases)
  case (worker j)
  with exit_worker[OF worker(2) assms(2,3,4)] show ?thesis by simp
next
  case (client c)
  with client_threads[OF client(2)] assms(2,3,4) show ?thesis
    by (auto simp: wake_done)
next
  case (spur j)
  with assms(2,3,4) show ?thesis by (auto simp: set_wpc_def nth_upd split: if_splits)
next
  case (call c f)
  with assms(2,3,4) show ?thesis by (simp add: set_cpc_def)
qed

subsection \<open>Every task passed to \<open>dispatch\<close> is pending or was pushed\<close>

lemma sub_client:
  assumes "client_step c s = Some s'"
  shows "mset (pushed s') + mset (pending (clients s')) =
         mset (pushed s) + mset (pending (clients s))"
proof -
  from assms have c: "c < length (clients s)"
    by (simp add: client_step_def split: if_splits)
  note u = mset_concat_update[OF c, of pend]
  show ?thesis
  proof (cases "clients s ! c")
    case (C_push sh op)
    with assms c u[of C_unlock] show ?thesis
      by (cases sh) (auto simp: pending_def client_step_def push_def set_cpc_def)
  next
    case (C_lock sh op)
    with assms c u[of "C_push sh op"] show ?thesis
      by (auto simp: pending_def client_step_def set_cpc_def split: if_splits)
  next
    case C_unlock
    with assms c u[of C_notify] show ?thesis
      by (auto simp: pending_def client_step_def set_cpc_def split: if_splits)
  next
    case C_notify
    with assms c u[of C_idle] show ?thesis
      by (auto simp: pending_def client_step_def set_cpc_def notify_all_def split: if_splits)
  next
    case D_quit
    with assms c u[of "D_join 0"] show ?thesis
      by (auto simp: pending_def client_step_def set_cpc_def split: if_splits)
  next
    case (D_join i)
    with assms c u[of "D_join (Suc i)"] u[of C_gone] show ?thesis
      by (auto simp: pending_def client_step_def set_cpc_def split: if_splits)
  qed (use assms c in \<open>auto simp: client_step_def\<close>)
qed

lemma sub_step:
  assumes "step e s = Some s'"
  shows "mset (pushed s') + mset (pending (clients s')) =
         mset (pushed s) + mset (pending (clients s)) + mset (submitted e)"
  using assms
proof (cases rule: step_cases)
  case (worker i)
  then show ?thesis using worker_keeps[of i s s'] by simp
next
  case (client c)
  then show ?thesis using sub_client[of c s s'] by simp
next
  case (spur i)
  then show ?thesis by (simp add: set_wpc_def)
next
  case (call c f)
  with mset_concat_update[of c "clients s" pend "entry f"] show ?thesis
    by (cases f) (simp_all add: pending_def set_cpc_def)
qed

lemma sub_run:
  "run es s = Some s' \<Longrightarrow>
   mset (pushed s') + mset (pending (clients s')) =
   mset (pushed s) + mset (pending (clients s)) + mset (submissions es)"
proof (induction es arbitrary: s)
  case Nil
  then show ?case by (simp add: submissions_def)
next
  case (Cons e es)
  then obtain t where t: "step e s = Some t" "run es t = Some s'"
    by (auto split: option.splits)
  from Cons.IH[OF t(2)] sub_step[OF t(1)] show ?case
    by (simp add: submissions_def)
qed

text \<open>With one client the order of the calls is kept as well.\<close>

lemma sub1_step:
  assumes "step e s = Some s'" "clients s = [pc]"
  shows "\<exists>pc'. clients s' = [pc'] \<and> pushed s' @ pend pc' = pushed s @ pend pc @ submitted e"
  using assms(1)
proof (cases rule: step_cases)
  case (worker i)
  then show ?thesis using worker_keeps[of i s s'] assms(2) by simp
next
  case (client c)
  with assms(2) have c: "c = 0" by (simp add: client_step_def split: if_splits)
  show ?thesis
  proof (cases pc)
    case (C_push sh op)
    with client assms(2) c show ?thesis
      by (cases sh) (auto simp: client_step_def push_def set_cpc_def)
  qed (use client assms(2) c in \<open>auto simp: client_step_def set_cpc_def notify_all_def
         split: if_splits\<close>)
next
  case (spur i)
  with assms(2) show ?thesis by (simp add: set_wpc_def)
next
  case (call c f)
  with assms(2) show ?thesis by (cases f) (simp_all add: set_cpc_def)
qed

lemma sub1_run:
  "run es s = Some s' \<Longrightarrow> clients s = [pc] \<Longrightarrow>
   \<exists>pc'. clients s' = [pc'] \<and> pushed s' @ pend pc' = pushed s @ pend pc @ submissions es"
proof (induction es arbitrary: s pc)
  case Nil
  then show ?case by (simp add: submissions_def)
next
  case (Cons e es)
  then obtain t where t: "step e s = Some t" "run es t = Some s'"
    by (auto split: option.splits)
  from sub1_step[OF t(1) Cons.prems(2)] obtain pc1 where
    p: "clients t = [pc1]" "pushed t @ pend pc1 = pushed s @ pend pc @ submitted e" by blast
  from Cons.IH[OF t(2) p(1)] p(2) show ?case
    by (auto simp: submissions_def)
qed

subsection \<open>With at most one worker the tasks are called in the order they were popped\<close>

lemma one_worker_worker:
  assumes "one_worker_inv s" "dispatch_thread_handler i s = Some s'"
  shows "one_worker_inv s'"
proof -
  from assms have i: "i = 0" and l: "length (threads s) = 1"
    by (auto simp: one_worker_inv_def dispatch_thread_handler_def split: if_splits)
  then obtain w where w: "threads s = [w]" by (cases "threads s") auto
  show ?thesis
  proof (cases w)
    case W_if
    with assms i w show ?thesis
      by (cases "q s")
         (auto simp: one_worker_inv_def inflight_def dispatch_thread_handler_def set_wpc_def)
  qed (use assms i w in \<open>auto simp: one_worker_inv_def inflight_def dispatch_thread_handler_def
        set_wpc_def split: if_splits\<close>)
qed

lemma one_worker_client:
  assumes "one_worker_inv s" "client_step c s = Some s'"
  shows "one_worker_inv s'"
proof (cases "clients s ! c")
  case (C_push sh op)
  with assms show ?thesis
    by (cases sh) (auto simp: one_worker_inv_def client_step_def push_def set_cpc_def split: if_splits)
qed (use assms in \<open>auto simp: one_worker_inv_def client_step_def set_cpc_def notify_all_def
       inflight_wake split: if_splits\<close>)

lemma one_worker_step:
  assumes "one_worker_inv s" "step e s = Some s'"
  shows "one_worker_inv s'"
  using assms(2)
proof (cases rule: step_cases)
  case (worker i)
  with assms(1) show ?thesis by (simp add: one_worker_worker)
next
  case (client c)
  with assms(1) show ?thesis by (simp add: one_worker_client)
next
  case (spur i)
  with assms(1) have "threads s = [W_blocked]" "i = 0"
    by (cases "threads s"; auto simp: one_worker_inv_def)+
  with spur assms(1) show ?thesis by (simp add: one_worker_inv_def inflight_def set_wpc_def)
next
  case (call c f)
  with assms(1) show ?thesis by (simp add: one_worker_inv_def set_cpc_def)
qed

lemma one_worker_construct: "n \<le> 1 \<Longrightarrow> one_worker_inv (construct nm n k)"
  by (simp add: one_worker_inv_def construct_def inflight_start)

subsection \<open>Without workers nothing is popped\<close>

lemma no_worker_step:
  assumes "no_worker_inv s" "step e s = Some s'"
  shows "no_worker_inv s'"
  using assms(2)
proof (cases rule: step_cases)
  case (worker i)
  with assms(1) show ?thesis by (simp add: no_worker_inv_def dispatch_thread_handler_def)
next
  case (client c)
  show ?thesis
  proof (cases "clients s ! c")
    case (C_push sh op)
    with assms client show ?thesis
      by (cases sh)
         (auto simp: no_worker_inv_def client_step_def push_def set_cpc_def split: if_splits)
  qed (use assms client in \<open>auto simp: no_worker_inv_def client_step_def set_cpc_def
         notify_all_def split: if_splits\<close>)
next
  case (spur i)
  with assms(1) show ?thesis by (simp add: no_worker_inv_def)
next
  case (call c f)
  with assms(1) show ?thesis by (simp add: no_worker_inv_def set_cpc_def)
qed

lemma no_worker_construct: "no_worker_inv (construct nm 0 k)"
  by (simp add: no_worker_inv_def construct_def)

subsection \<open>A call of \<open>dispatch\<close> that is not interrupted\<close>

lemma dispatch_run:
  assumes "c < length (clients s)" "clients s ! c = C_idle" "lock s = None"
  shows "run (submit c sh op) s = Some (notify_all (push op s))"
proof -
  have "run (submit c sh op) s =
        Some (set_cpc c C_idle
               (notify_all (push op (s\<lparr>lock := Some (Client c)\<rparr>))\<lparr>lock := None\<rparr>))"
    using assms
    by (cases sh)
       (simp_all add: submit_def numeral_eq_Suc call_def client_step_def set_cpc_def push_def
          notify_all_def)
  moreover have
    "set_cpc c C_idle (notify_all (push op (s\<lparr>lock := Some (Client c)\<rparr>))\<lparr>lock := None\<rparr>) =
     notify_all (push op s)"
    using assms
    by (intro dispatch_queue.equality)
       (simp_all add: set_cpc_def notify_all_def push_def list_update_same_conv)
  ultimately show ?thesis by simp
qed

lemma wake_not_blocked: "W_blocked \<notin> set (map wake ws)"
proof (induction ws)
  case Nil
  then show ?case by simp
next
  case (Cons w ws)
  then show ?case by (cases w) simp_all
qed

subsection \<open>Erasing the tag of the overload commutes with every step\<close>

lemma unshape_idem [simp]: "unshape (unshape pc) = unshape pc"
  by (cases pc) simp_all

lemma unshape_comp [simp]: "unshape \<circ> unshape = unshape"
  by (rule ext) simp

lemma forget_idem [simp]: "forget (forget s) = forget s"
  by (simp add: forget_def)

lemma forget_set_cpc: "forget (set_cpc c pc s) = set_cpc c (unshape pc) (forget s)"
  by (simp add: forget_def set_cpc_def map_update)

lemma forget_worker:
  "dispatch_thread_handler i (forget s) = map_option forget (dispatch_thread_handler i s)"
  by (cases "threads s ! i"; cases "q s")
     (simp_all add: dispatch_thread_handler_def forget_def set_wpc_def)

lemma forget_client:
  "map_option forget (client_step c (forget s)) = map_option forget (client_step c s)"
proof (cases "c < length (clients s)")
  case False
  then show ?thesis by (simp add: client_step_def forget_def)
next
  case True
  show ?thesis
  proof (cases "clients s ! c")
    case (C_lock sh op)
    with True show ?thesis
      by (simp add: client_step_def forget_def set_cpc_def map_update)
  next
    case (C_push sh op)
    with True show ?thesis
      by (cases sh) (simp_all add: client_step_def forget_def set_cpc_def push_def map_update)
  qed (use True in \<open>simp_all add: client_step_def forget_def set_cpc_def notify_all_def
         map_update\<close>)
qed

lemma forget_step: "map_option forget (step e (forget s)) = map_option forget (step e s)"
proof (cases e)
  case (Sched t)
  then show ?thesis
    by (cases t) (simp_all add: forget_worker forget_client option.map_comp comp_def)
next
  case (Spurious i)
  then show ?thesis by (simp add: spurious_def forget_def set_wpc_def)
next
  case (Call c f)
  show ?thesis
  proof (cases "c < length (clients s) \<and> clients s ! c = C_idle")
    case True
    with Call show ?thesis by (simp add: call_def forget_def set_cpc_def map_update)
  next
    case False
    then have "\<not> (c < length (clients s) \<and> unshape (clients s ! c) = C_idle)"
      by (cases "clients s ! c") auto
    with Call False show ?thesis by (auto simp: call_def forget_def)
  qed
qed

lemma forget_run:
  "forget s = forget t \<Longrightarrow> map_option forget (run es s) = map_option forget (run es t)"
proof (induction es arbitrary: s t)
  case Nil
  then show ?case by simp
next
  case (Cons e es)
  have "map_option forget (step e s) = map_option forget (step e t)"
    using forget_step[of e s] forget_step[of e t] Cons.prems by simp
  then show ?case
    by (cases "step e s"; cases "step e t") (auto intro: Cons.IH)
qed

lemma shapes_forget:
  "map_option forget (run (Call c (Dispatch Copy op) # es) s) =
   map_option forget (run (Call c (Dispatch Move op) # es) s)"
proof (cases "c < length (clients s) \<and> clients s ! c = C_idle")
  case True
  have "forget (set_cpc c (C_lock Copy op) s) = forget (set_cpc c (C_lock Move op) s)"
    by (simp add: forget_set_cpc)
  from forget_run[OF this] True show ?thesis
    by (simp add: call_def)
next
  case False
  then show ?thesis by (auto simp: call_def)
qed

lemma forget_proj:
  assumes "map_option forget x = map_option forget y"
  shows "map_option q x = map_option q y \<and> map_option threads x = map_option threads y \<and>
         map_option lock x = map_option lock y \<and> map_option quit x = map_option quit y \<and>
         map_option pushed x = map_option pushed y \<and> map_option popped x = map_option popped y \<and>
         map_option executed x = map_option executed y"
proof (cases x)
  case None
  with assms show ?thesis by simp
next
  case (Some a)
  with assms obtain b where b: "y = Some b" "forget a = forget b" by (cases y) auto
  from b(2) have "q (forget a) = q (forget b)" "threads (forget a) = threads (forget b)"
    "lock (forget a) = lock (forget b)" "quit (forget a) = quit (forget b)"
    "pushed (forget a) = pushed (forget b)" "popped (forget a) = popped (forget b)"
    "executed (forget a) = executed (forget b)"
    by simp_all
  with Some b(1) show ?thesis by (simp add: forget_def)
qed

subsection \<open>With one client, every worker calls a queued task before it returns\<close>

text \<open>
  The loop is a \<open>do ... while\<close>: a worker tests the queue at line 105 before it tests the
  quit flag at line 117. With one client every push precedes the destructor, so a worker
  that found the queue empty leaves it empty for good.
\<close>

lemma sum_map_update:
  "i < length xs \<Longrightarrow>
   sum_list (map f (xs[i := y])) + f (xs ! i) = sum_list (map f xs) + (f y :: nat)"
proof (induction xs arbitrary: i)
  case Nil
  then show ?case by simp
next
  case (Cons x xs)
  show ?case
  proof (cases i)
    case 0
    then show ?thesis by simp
  next
    case (Suc j)
    with Cons.prems have "j < length xs" by simp
    from Cons.IH[OF this] Suc show ?thesis by simp
  qed
qed

lemma past_wake: "past_body (wake pc) = past_body pc"
  by (cases pc) simp_all

lemma relocking_wake: "relocking (wake pc) = relocking pc"
  by (cases pc) simp_all

lemma sum_past_wake: "sum_list (map (past_body \<circ> wake) ws) = sum_list (map past_body ws)"
  by (induction ws) (simp_all add: past_wake)

lemma sum_relocking_wake: "sum_list (map (relocking \<circ> wake) ws) = sum_list (map relocking ws)"
  by (induction ws) (simp_all add: relocking_wake)

lemma past_eq_relocking:
  "\<forall>j < length ws. ws ! j \<noteq> W_done \<and> ws ! j \<noteq> W_while \<Longrightarrow>
   sum_list (map past_body ws) = sum_list (map relocking ws)"
proof (induction ws)
  case Nil
  then show ?case by simp
next
  case (Cons w ws)
  from Cons.prems have "w \<noteq> W_done \<and> w \<noteq> W_while" by (auto dest: spec[of _ 0])
  moreover from Cons.prems have "\<forall>j < length ws. ws ! j \<noteq> W_done \<and> ws ! j \<noteq> W_while"
    by (auto dest: spec[of _ "Suc j" for j])
  ultimately show ?case using Cons.IH by (cases w) simp_all
qed

lemma past_done: "\<forall>j < length ws. ws ! j = W_done \<Longrightarrow> sum_list (map past_body ws) = length ws"
proof (induction ws)
  case Nil
  then show ?case by simp
next
  case (Cons w ws)
  from Cons.prems have "w = W_done" by (auto dest: spec[of _ 0])
  moreover from Cons.prems have "\<forall>j < length ws. ws ! j = W_done"
    by (auto dest: spec[of _ "Suc j" for j])
  ultimately show ?case using Cons.IH by simp
qed

lemma closed_inv_step:
  assumes "closed_inv s" "step e s = Some s'"
  shows "closed_inv s'"
  using assms(2)
proof (cases rule: step_cases)
  case (worker i)
  from worker(2) have "quit s' = quit s"
    by (cases "threads s ! i"; cases "q s")
       (auto simp: dispatch_thread_handler_def set_wpc_def split: if_splits)
  with assms(1) worker_keeps[OF worker(2)] show ?thesis by (simp add: closed_inv_def)
next
  case (client c)
  from assms(1) obtain pc where pc: "clients s = [pc]" "quit s \<longrightarrow> closed_pc pc"
    by (auto simp: closed_inv_def)
  with client have c: "c = 0" by (simp add: client_step_def split: if_splits)
  show ?thesis
  proof (cases pc)
    case (C_push sh op)
    with client pc c show ?thesis
      by (cases sh) (auto simp: closed_inv_def client_step_def push_def set_cpc_def)
  qed (use client pc c in \<open>auto simp: closed_inv_def client_step_def set_cpc_def notify_all_def
         split: if_splits\<close>)
next
  case (spur i)
  with assms(1) show ?thesis by (simp add: closed_inv_def set_wpc_def)
next
  case (call c f)
  with assms(1) show ?thesis by (cases f) (auto simp: closed_inv_def set_cpc_def)
qed

lemma closed_inv_construct: "closed_inv (construct nm n 1)"
  by (simp add: closed_inv_def construct_def)

lemma nodone_worker:
  assumes "nodone_inv s" "dispatch_thread_handler i s = Some s'"
  shows "nodone_inv s'"
proof -
  from assms(2) have i: "i < length (threads s)"
    by (simp add: dispatch_thread_handler_def split: if_splits)
  show ?thesis
  proof (cases "threads s ! i")
    case W_if
    with assms i show ?thesis
      by (cases "q s")
         (auto simp: nodone_inv_def dispatch_thread_handler_def set_wpc_def nth_upd split: if_splits)
  qed (use assms i in \<open>auto simp: nodone_inv_def dispatch_thread_handler_def set_wpc_def nth_upd
         split: if_splits\<close>)
qed

lemma nodone_client:
  assumes "nodone_inv s" "client_step c s = Some s'"
  shows "nodone_inv s'"
proof (cases "clients s ! c")
  case (C_push sh op)
  with assms show ?thesis
    by (cases sh) (auto simp: nodone_inv_def client_step_def push_def set_cpc_def split: if_splits)
qed (use assms in \<open>auto simp: nodone_inv_def client_step_def set_cpc_def notify_all_def wake_done
       split: if_splits\<close>)

lemma nodone_inv_step:
  assumes "nodone_inv s" "step e s = Some s'"
  shows "nodone_inv s'"
  using assms(2)
proof (cases rule: step_cases)
  case (worker i)
  with assms(1) show ?thesis by (simp add: nodone_worker)
next
  case (client c)
  with assms(1) show ?thesis by (simp add: nodone_client)
next
  case (spur i)
  with assms(1) show ?thesis by (auto simp: nodone_inv_def set_wpc_def nth_upd split: if_splits)
next
  case (call c f)
  with assms(1) show ?thesis by (simp add: nodone_inv_def set_cpc_def)
qed

lemma nodone_inv_construct: "nodone_inv (construct nm n k)"
  by (simp add: nodone_inv_def construct_def)


lemma relock_worker:
  assumes "relock_inv s" "dispatch_thread_handler i s = Some s'"
  shows "relock_inv s'"
proof -
  from assms(2) have i: "i < length (threads s)"
    by (simp add: dispatch_thread_handler_def split: if_splits)
  note u = sum_map_update[OF i, of relocking]
  show ?thesis
  proof (cases "threads s ! i")
    case W_lock
    with assms i u[of W_pred] show ?thesis
      by (auto simp: relock_inv_def dispatch_thread_handler_def set_wpc_def split: if_splits)
  next
    case W_pred
    with assms i u[of W_if] u[of W_sleep] show ?thesis
      by (auto simp: relock_inv_def dispatch_thread_handler_def set_wpc_def split: if_splits)
  next
    case W_sleep
    with assms i u[of W_blocked] show ?thesis
      by (auto simp: relock_inv_def dispatch_thread_handler_def set_wpc_def)
  next
    case W_blocked
    with assms i show ?thesis by (simp add: dispatch_thread_handler_def)
  next
    case W_woken
    with assms i u[of W_pred] show ?thesis
      by (auto simp: relock_inv_def dispatch_thread_handler_def set_wpc_def split: if_splits)
  next
    case W_if
    show ?thesis
    proof (cases "q s")
      case Nil
      with W_if assms i u[of W_while] show ?thesis
        by (auto simp: relock_inv_def dispatch_thread_handler_def set_wpc_def)
    next
      case (Cons op rest)
      with W_if assms i u[of "W_unlock op"] show ?thesis
        by (auto simp: relock_inv_def dispatch_thread_handler_def set_wpc_def)
    qed
  next
    case (W_unlock op)
    with assms i u[of "W_call op"] show ?thesis
      by (auto simp: relock_inv_def dispatch_thread_handler_def set_wpc_def)
  next
    case (W_call op)
    with assms i u[of W_relock] show ?thesis
      by (auto simp: relock_inv_def dispatch_thread_handler_def set_wpc_def)
  next
    case W_relock
    with assms i u[of W_while] show ?thesis
      by (auto simp: relock_inv_def dispatch_thread_handler_def set_wpc_def split: if_splits)
  next
    case W_while
    with assms i u[of W_pred] u[of W_done] show ?thesis
      by (auto simp: relock_inv_def dispatch_thread_handler_def set_wpc_def split: if_splits)
  next
    case W_done
    with assms i show ?thesis by (simp add: dispatch_thread_handler_def)
  qed
qed

lemma client_keeps:
  assumes "client_step c s = Some s'"
  shows "executed s' = executed s \<and> popped s' = popped s \<and>
         (threads s' = threads s \<or> threads s' = map wake (threads s))"
proof (cases "clients s ! c")
  case (C_push sh op)
  with assms show ?thesis
    by (cases sh) (auto simp: client_step_def set_cpc_def push_def split: if_splits)
qed (use assms in \<open>auto simp: client_step_def set_cpc_def notify_all_def split: if_splits\<close>)

lemma relock_inv_step:
  assumes "relock_inv s" "step e s = Some s'"
  shows "relock_inv s'"
  using assms(2)
proof (cases rule: step_cases)
  case (worker i)
  with assms(1) show ?thesis by (simp add: relock_worker)
next
  case (client c)
  with assms(1) client_keeps[OF client(2)] show ?thesis
    by (auto simp: relock_inv_def sum_relocking_wake)
next
  case (spur i)
  with assms(1) sum_map_update[of i "threads s" relocking W_woken] show ?thesis
    by (simp add: relock_inv_def set_wpc_def)
next
  case (call c f)
  with assms(1) show ?thesis by (simp add: relock_inv_def set_cpc_def)
qed

lemma relock_inv_construct: "relock_inv (construct nm n k)"
  by (induction n) (simp_all add: relock_inv_def construct_def)

lemma past_worker:
  assumes "past_inv s" "dispatch_thread_handler i s = Some s'"
  shows "past_inv s'"
proof -
  from assms(2) have i: "i < length (threads s)"
    by (simp add: dispatch_thread_handler_def split: if_splits)
  note u = sum_map_update[OF i, of past_body]
  show ?thesis
  proof (cases "threads s ! i")
    case W_lock
    with assms i u[of W_pred] show ?thesis
      by (auto simp: past_inv_def dispatch_thread_handler_def set_wpc_def split: if_splits)
  next
    case W_pred
    with assms i u[of W_if] u[of W_sleep] show ?thesis
      by (auto simp: past_inv_def dispatch_thread_handler_def set_wpc_def split: if_splits)
  next
    case W_sleep
    with assms i u[of W_blocked] show ?thesis
      by (auto simp: past_inv_def dispatch_thread_handler_def set_wpc_def)
  next
    case W_blocked
    with assms i show ?thesis by (simp add: dispatch_thread_handler_def)
  next
    case W_woken
    with assms i u[of W_pred] show ?thesis
      by (auto simp: past_inv_def dispatch_thread_handler_def set_wpc_def split: if_splits)
  next
    case W_if
    show ?thesis
    proof (cases "q s")
      case Nil
      with W_if assms i show ?thesis
        by (auto simp: past_inv_def dispatch_thread_handler_def set_wpc_def)
    next
      case (Cons op rest)
      with W_if assms i u[of "W_unlock op"] show ?thesis
        by (auto simp: past_inv_def dispatch_thread_handler_def set_wpc_def)
    qed
  next
    case (W_unlock op)
    with assms i u[of "W_call op"] show ?thesis
      by (auto simp: past_inv_def dispatch_thread_handler_def set_wpc_def)
  next
    case (W_call op)
    with assms i u[of W_relock] show ?thesis
      by (auto simp: past_inv_def dispatch_thread_handler_def set_wpc_def)
  next
    case W_relock
    with assms i u[of W_while] show ?thesis
      by (auto simp: past_inv_def dispatch_thread_handler_def set_wpc_def split: if_splits)
  next
    case W_while
    with assms i u[of W_pred] u[of W_done] show ?thesis
      by (auto simp: past_inv_def dispatch_thread_handler_def set_wpc_def split: if_splits)
  next
    case W_done
    with assms i show ?thesis by (simp add: dispatch_thread_handler_def)
  qed
qed

text \<open>
  The push: the client owns the mutex, so no worker is at line 117, and the quit flag is
  not set, so no worker has returned.
\<close>

lemma past_client:
  assumes "lock_inv s" "closed_inv s" "nodone_inv s" "relock_inv s" "past_inv s"
    "client_step c s = Some s'"
  shows "past_inv s'"
proof -
  from assms(6) have c: "c < length (clients s)"
    by (simp add: client_step_def split: if_splits)
  show ?thesis
  proof (cases "clients s ! c")
    case (C_push sh op)
    with assms(1) c have l: "lock s = Some (Client c)" by (simp add: lock_inv_def)
    with assms(1) have w: "\<forall>j < length (threads s). threads s ! j \<noteq> W_while"
      by (auto simp: lock_inv_def)
    from assms(2) c C_push have "\<not> quit s" by (auto simp: closed_inv_def)
    with assms(3) have "\<forall>j < length (threads s). threads s ! j \<noteq> W_done"
      by (simp add: nodone_inv_def)
    with w have "sum_list (map past_body (threads s)) = sum_list (map relocking (threads s))"
      by (simp add: past_eq_relocking)
    with assms(4) have "sum_list (map past_body (threads s)) \<le> length (executed s)"
      by (simp add: relock_inv_def)
    with assms(6) c C_push show ?thesis
      by (cases sh) (auto simp: past_inv_def client_step_def push_def set_cpc_def)
  qed (use assms(5,6) c in \<open>auto simp: past_inv_def client_step_def set_cpc_def notify_all_def
         sum_past_wake split: if_splits\<close>)
qed

lemma drain_inv_step:
  assumes "drain_inv s" "step e s = Some s'"
  shows "drain_inv s'"
proof -
  from assms have a: "lock_inv s'" "closed_inv s'" "nodone_inv s'" "relock_inv s'"
    by (auto simp: drain_inv_def intro: lock_inv_step closed_inv_step nodone_inv_step
        relock_inv_step)
  have "past_inv s'"
    using assms(2)
  proof (cases rule: step_cases)
    case (worker i)
    with assms(1) show ?thesis by (auto simp: drain_inv_def intro: past_worker)
  next
    case (client c)
    with assms(1) show ?thesis by (auto simp: drain_inv_def intro: past_client)
  next
    case (spur i)
    with assms(1) sum_map_update[of i "threads s" past_body W_woken] show ?thesis
      by (auto simp: drain_inv_def past_inv_def set_wpc_def)
  next
    case (call c f)
    with assms(1) show ?thesis by (simp add: drain_inv_def past_inv_def set_cpc_def)
  qed
  with a show ?thesis by (simp add: drain_inv_def)
qed

lemma drain_inv_construct: "drain_inv (construct nm n 1)"
proof -
  have "past_inv (construct nm n 1)" by (simp add: past_inv_def construct_def)
  then show ?thesis
    unfolding drain_inv_def
    using lock_inv_construct closed_inv_construct nodone_inv_construct relock_inv_construct
    by blast
qed

lemma count_inv_step:
  assumes "count_inv n s" "step e s = Some s'"
  shows "count_inv n s'"
  using assms(2)
proof (cases rule: step_cases)
  case (worker i)
  then have "length (threads s') = length (threads s)"
    by (cases "threads s ! i"; cases "q s")
       (auto simp: dispatch_thread_handler_def set_wpc_def split: if_splits)
  with assms(1) show ?thesis by (simp add: count_inv_def)
next
  case (client c)
  with assms(1) client_keeps[OF client(2)] show ?thesis by (auto simp: count_inv_def)
next
  case (spur i)
  with assms(1) show ?thesis by (simp add: count_inv_def set_wpc_def)
next
  case (call c f)
  with assms(1) show ?thesis by (simp add: count_inv_def set_cpc_def)
qed

lemma drained_or_busy:
  assumes "run es (construct nm n 1) = Some s" "clients s ! 0 = C_gone"
  shows "q s = [] \<or> n \<le> length (executed s)"
proof -
  have "count_inv n s"
    using run_invariant[of "count_inv n", OF count_inv_step _ assms(1)]
    by (simp add: count_inv_def construct_def)
  then have n: "length (threads s) = n" by (simp add: count_inv_def)
  have "drain_inv s"
    using run_invariant[of drain_inv, OF drain_inv_step drain_inv_construct assms(1)] .
  then have p: "past_inv s" and "closed_inv s" by (simp_all add: drain_inv_def)
  then have c: "0 < length (clients s)" by (auto simp: closed_inv_def)
  have "join_inv s"
    using run_invariant[of join_inv, OF join_inv_step join_inv_construct assms(1)] .
  with c assms(2) have "\<forall>j < length (threads s). threads s ! j = W_done"
    by (auto simp: join_inv_def)
  then have "sum_list (map past_body (threads s)) = n"
    using n by (simp add: past_done)
  with p show ?thesis by (auto simp: past_inv_def)
qed

lemma all_complete:
  assumes "run es (construct nm n 1) = Some s" "clients s ! 0 = C_gone"
    "q s = [] \<or> length (submissions es) \<le> n"
  shows "q s = [] \<and> mset (executed s) = mset (submissions es)"
proof -
  have "clients (construct nm n 1 :: 'a dispatch_queue) = [C_idle]"
    "pushed (construct nm n 1 :: 'a dispatch_queue) = []"
    by (simp_all add: construct_def)
  with sub1_run[OF assms(1), of C_idle] obtain pc' where
    "clients s = [pc']" "pushed s @ pend pc' = submissions es" by auto
  with assms(2) have s: "pushed s = submissions es" by simp
  have "fifo_inv s"
    using run_invariant[of fifo_inv, OF fifo_inv_step fifo_inv_construct assms(1)] .
  then have f: "pushed s = popped s @ q s" by (simp add: fifo_inv_def)
  have "join_inv s"
    using run_invariant[of join_inv, OF join_inv_step join_inv_construct assms(1)] .
  with \<open>clients s = [pc']\<close> assms(2) have d: "\<forall>j < length (threads s). threads s ! j = W_done"
    by (auto simp: join_inv_def)
  have "once_inv s"
    using run_invariant[of once_inv, OF once_inv_step once_inv_construct assms(1)] .
  with d have e: "mset (executed s) = mset (popped s)"
    by (simp add: once_inv_def inflight_done)
  then have l: "length (executed s) = length (popped s)" by (metis size_mset)
  have "q s = []"
  proof (cases "q s = []")
    case True
    then show ?thesis .
  next
    case False
    with assms(3) have "length (submissions es) \<le> n" by simp
    moreover from drained_or_busy[OF assms(1,2)] False have "n \<le> length (executed s)" by simp
    ultimately have "length (pushed s) \<le> length (popped s)" using s l by simp
    with f show ?thesis by simp
  qed
  with s f e show ?thesis by simp
qed

section \<open>The claims\<close>

subsection \<open>C1: what has happened when shutdown returns\<close>

text \<open>
  Claim C1 says that all M tasks submitted before shutdown complete before shutdown
  returns, whatever the worker count, because a worker keeps draining the queue after the
  quit flag is set. The loop of the handler is \<open>do { ... } while (!quit_)\<close>: a worker
  tests the queue before it tests the flag, and leaves at line 117 once the flag is set,
  whatever the queue holds. C1 as amended: when the destructor has returned, every worker
  has returned, every task that was popped has been called, and the tasks that were pushed
  and not popped are still in the queue, in order; if the tasks were submitted by one
  thread, which then called the destructor, either all M tasks have been called or at
  least as many tasks as there are workers have been, so that all M tasks complete before
  shutdown returns whenever M is at most the worker count. A worker at the loop condition
  goes back to the top of the loop if the quit flag is not set, and leaves if it is set.
\<close>

theorem shutdown_drains_up_to_worker_count:
  assumes "run es (construct nm n k) = Some s"
    and "c < length (clients s)" and "clients s ! c = C_gone"
    and "i < length (threads t)" and "threads t ! i = W_while"
  shows "(\<forall>j < length (threads s). threads s ! j = W_done) \<and>
         mset (executed s) = mset (popped s) \<and> pushed s = popped s @ q s \<and>
         (k = 1 \<longrightarrow>
            ((q s = [] \<and> mset (executed s) = mset (submissions es)) \<or>
             n \<le> length (executed s)) \<and>
            (length (submissions es) \<le> n \<longrightarrow>
               q s = [] \<and> mset (executed s) = mset (submissions es))) \<and>
         dispatch_thread_handler i t =
           Some (if quit t then set_wpc i W_done (t\<lparr>lock := None\<rparr>) else set_wpc i W_pred t)"
proof -
  have "join_inv s"
    using run_invariant[of join_inv, OF join_inv_step join_inv_construct assms(1)] .
  with assms(2,3) have d: "\<forall>j < length (threads s). threads s ! j = W_done"
    by (auto simp: join_inv_def)
  have "once_inv s"
    using run_invariant[of once_inv, OF once_inv_step once_inv_construct assms(1)] .
  with d have e: "mset (executed s) = mset (popped s)"
    by (simp add: once_inv_def inflight_done)
  have "fifo_inv s"
    using run_invariant[of fifo_inv, OF fifo_inv_step fifo_inv_construct assms(1)] .
  then have f: "pushed s = popped s @ q s" by (simp add: fifo_inv_def)
  have g: "k = 1 \<longrightarrow>
      ((q s = [] \<and> mset (executed s) = mset (submissions es)) \<or> n \<le> length (executed s)) \<and>
      (length (submissions es) \<le> n \<longrightarrow> q s = [] \<and> mset (executed s) = mset (submissions es))"
  proof
    assume "k = 1"
    with assms(1) have r: "run es (construct nm n 1) = Some s" by simp
    have "drain_inv s"
      using run_invariant[of drain_inv, OF drain_inv_step drain_inv_construct r] .
    then obtain pc where "clients s = [pc]" by (auto simp: drain_inv_def closed_inv_def)
    with assms(2,3) have z: "clients s ! 0 = C_gone" by simp
    from drained_or_busy[OF r z] all_complete[OF r z]
    show "((q s = [] \<and> mset (executed s) = mset (submissions es)) \<or>
           n \<le> length (executed s)) \<and>
          (length (submissions es) \<le> n \<longrightarrow>
             q s = [] \<and> mset (executed s) = mset (submissions es))"
      by blast
  qed
  from assms(4,5) have "dispatch_thread_handler i t =
      Some (if quit t then set_wpc i W_done (t\<lparr>lock := None\<rparr>) else set_wpc i W_pred t)"
    by (simp add: dispatch_thread_handler_def)
  with d e f g show ?thesis by simp
qed

text \<open>
  Two workers, two tasks submitted by one client, then the destructor at once: each
  worker calls one task and returns, and the destructor returns with both tasks called.
\<close>

theorem shutdown_drains_up_to_worker_count_witness:
  "run (submit 0 Move (1::nat) @ submit 0 Move 2 @ [Call 0 Destroy, Sched (Client 0)] @
        replicate 7 (Sched (Worker 0)) @ replicate 7 (Sched (Worker 1)) @
        replicate 3 (Sched (Client 0))) (construct ''demo'' 2 1) =
     Some \<lparr>name = ''demo'', lock = None, threads = [W_done, W_done], q = [], quit = True,
           clients = [C_gone], pushed = [1, 2], popped = [1, 2], executed = [1, 2]\<rparr> \<and>
   (1::nat) = 1 \<and>
   length (submissions (submit 0 Move (1::nat) @ submit 0 Move 2 @
        [Call 0 Destroy, Sched (Client 0)] @ replicate 7 (Sched (Worker 0)) @
        replicate 7 (Sched (Worker 1)) @ replicate 3 (Sched (Client 0)))) \<le> 2 \<and>
   mset [1::nat, 2] = mset (submissions (submit 0 Move (1::nat) @ submit 0 Move 2 @
        [Call 0 Destroy, Sched (Client 0)] @ replicate 7 (Sched (Worker 0)) @
        replicate 7 (Sched (Worker 1)) @ replicate 3 (Sched (Client 0)))) \<and>
   dispatch_thread_handler 0
     \<lparr>name = ''demo'', lock = Some (Worker 0), threads = [W_while], q = [2::nat], quit = False,
      clients = [C_idle], pushed = [1, 2], popped = [1], executed = [1]\<rparr> =
     Some \<lparr>name = ''demo'', lock = Some (Worker 0), threads = [W_pred], q = [2], quit = False,
           clients = [C_idle], pushed = [1, 2], popped = [1], executed = [1]\<rparr>"
  using shutdown_drains_up_to_worker_count
    [of "submit 0 Move (1::nat) @ submit 0 Move 2 @ [Call 0 Destroy, Sched (Client 0)] @
         replicate 7 (Sched (Worker 0)) @ replicate 7 (Sched (Worker 1)) @
         replicate 3 (Sched (Client 0))" "''demo''" 2 1
        "\<lparr>name = ''demo'', lock = None, threads = [W_done, W_done], q = [], quit = True,
          clients = [C_gone], pushed = [1, 2], popped = [1, 2], executed = [1, 2]\<rparr>" 0 0
        "\<lparr>name = ''demo'', lock = Some (Worker 0), threads = [W_while], q = [2::nat],
          quit = False, clients = [C_idle], pushed = [1, 2], popped = [1], executed = [1]\<rparr>"]
  by (simp add: submit_def submissions_def numeral_eq_Suc step_defs construct_def)

text \<open>
  The claim as stated fails when there are more tasks than workers: one worker, two tasks
  submitted, then the destructor. The worker calls the first task, finds the quit flag set
  and returns; the destructor returns with the second task in the queue.
\<close>

theorem drain_before_exit_counterexample:
  "run (submit 0 Move (1::nat) @ submit 0 Move 2 @ [Call 0 Destroy, Sched (Client 0)] @
        replicate 7 (Sched (Worker 0)) @ replicate 2 (Sched (Client 0)))
     (construct ''demo'' 1 1) =
   Some \<lparr>name = ''demo'', lock = None, threads = [W_done], q = [2], quit = True,
         clients = [C_gone], pushed = [1, 2], popped = [1], executed = [1]\<rparr>"
  by (simp add: submit_def numeral_eq_Suc step_defs construct_def)

subsection \<open>C2: when a worker leaves its loop\<close>

text \<open>
  Claim C2 says that a worker leaves its loop only when it finds the queue empty and the
  quit flag set. The code tests the flag alone, at line 117. C2 as amended: in every
  reachable state, the only step after which a worker has returned is its own step at the
  loop condition of line 117, taken with the mutex held and the quit flag set; the step
  releases the mutex. The queue may hold tasks at that moment.
\<close>

theorem worker_exits_at_loop_condition:
  assumes "run es (construct nm n k) = Some s" and "step e s = Some s'"
    and "i < length (threads s)" and "threads s ! i \<noteq> W_done" and "threads s' ! i = W_done"
  shows "e = Sched (Worker i) \<and> threads s ! i = W_while \<and> quit s \<and>
         lock s = Some (Worker i) \<and> lock s' = None"
proof -
  from exit_step[OF assms(2,3,4,5)]
  have x: "e = Sched (Worker i)" "threads s ! i = W_while" "quit s" "lock s' = None"
    by simp_all
  have "lock_inv s"
    using run_invariant[of lock_inv, OF lock_inv_step lock_inv_construct assms(1)] .
  with assms(3) x(2) have "lock s = Some (Worker i)"
    by (simp add: lock_inv_def)
  with x show ?thesis by simp
qed

text \<open>A pool without tasks whose destructor runs before the worker starts.\<close>

theorem worker_exits_at_loop_condition_witness:
  "run ([Call 0 Destroy, Sched (Client 0)] @ replicate 3 (Sched (Worker 0)))
     (construct ''demo'' 1 1) =
     Some \<lparr>name = ''demo'', lock = Some (Worker 0), threads = [W_while], q = [], quit = True,
           clients = [D_join 0], pushed = [], popped = [], executed = ([]::nat list)\<rparr> \<and>
   step (Sched (Worker 0))
     \<lparr>name = ''demo'', lock = Some (Worker 0), threads = [W_while], q = [], quit = True,
      clients = [D_join 0], pushed = [], popped = [], executed = ([]::nat list)\<rparr> =
     Some \<lparr>name = ''demo'', lock = None, threads = [W_done], q = [], quit = True,
           clients = [D_join 0], pushed = [], popped = [], executed = []\<rparr>"
  using worker_exits_at_loop_condition
    [of "[Call 0 Destroy, Sched (Client 0)] @ replicate 3 (Sched (Worker 0))" "''demo''" 1 1
        "\<lparr>name = ''demo'', lock = Some (Worker 0), threads = [W_while], q = [], quit = True,
          clients = [D_join 0], pushed = [], popped = [], executed = ([]::nat list)\<rparr>"
        "Sched (Worker 0)"
        "\<lparr>name = ''demo'', lock = None, threads = [W_done], q = [], quit = True,
          clients = [D_join 0], pushed = [], popped = [], executed = []\<rparr>" 0]
  by (simp add: numeral_eq_Suc step_defs construct_def)

text \<open>
  The claim as stated fails: the quit flag is set while the worker calls the first of two
  tasks; at the loop condition the queue holds the second task and the worker returns.
\<close>

theorem worker_exit_counterexample:
  "run (submit 0 Copy (1::nat) @ submit 0 Copy 2 @ replicate 4 (Sched (Worker 0)) @
        [Call 0 Destroy, Sched (Client 0)] @ replicate 2 (Sched (Worker 0)))
     (construct ''demo'' 1 1) =
     Some \<lparr>name = ''demo'', lock = Some (Worker 0), threads = [W_while], q = [2], quit = True,
           clients = [D_join 0], pushed = [1, 2], popped = [1], executed = [1]\<rparr> \<and>
   step (Sched (Worker 0))
     \<lparr>name = ''demo'', lock = Some (Worker 0), threads = [W_while], q = [2::nat], quit = True,
      clients = [D_join 0], pushed = [1, 2], popped = [1], executed = [1]\<rparr> =
     Some \<lparr>name = ''demo'', lock = None, threads = [W_done], q = [2], quit = True,
           clients = [D_join 0], pushed = [1, 2], popped = [1], executed = [1]\<rparr>"
  by (simp add: submit_def numeral_eq_Suc step_defs construct_def)

subsection \<open>C3: the destructor\<close>

text \<open>
  Claim C3 says that shutdown sets the quit flag, delivers a wake that reaches every worker
  and then joins the workers in creation order until all have exited. The destructor
  (lines 55 to 70) assigns the flag and joins in creation order, but it never calls
  \<open>cv_.notify_all()\<close>, which \<open>dispatch\<close> does after its own write. At the failing
  input, a pool with one worker and no task, the worker blocks in \<open>wait\<close>, the destructor
  sets the flag, and then neither the worker nor the destructor can take a step: the worker
  stays blocked on the condition variable and \<open>join\<close> does not return.
\<close>

theorem destructor_leaves_worker_blocked:
  "run (replicate 3 (Sched (Worker 0)) @ [Call 0 Destroy, Sched (Client 0)])
     (construct ''demo'' 1 1) =
     Some \<lparr>name = ''demo'', lock = None, threads = [W_blocked], q = [], quit = True,
           clients = [D_join 0], pushed = [], popped = [], executed = ([]::nat list)\<rparr> \<and>
   step (Sched (Worker 0))
     \<lparr>name = ''demo'', lock = None, threads = [W_blocked], q = [], quit = True,
      clients = [D_join 0], pushed = [], popped = [], executed = ([]::nat list)\<rparr> = None \<and>
   step (Sched (Client 0))
     \<lparr>name = ''demo'', lock = None, threads = [W_blocked], q = [], quit = True,
      clients = [D_join 0], pushed = [], popped = [], executed = ([]::nat list)\<rparr> = None"
  by (simp add: numeral_eq_Suc step_defs construct_def)

subsection \<open>C4: the quit flag and the mutex\<close>

text \<open>
  Claim C4 says that every read and write of the quit flag, the destructor's write
  included, happens with the mutex held, so that no race between the flag and the wait is
  possible. The worker reads the flag at lines 101 and 117 with the mutex held, and every
  other access to the shared fields takes the mutex first; the destructor writes the flag at
  line 58 without taking it. At the failing input the worker owns the mutex and has
  evaluated the wait predicate to false; the destructor writes the flag while the worker
  still owns the mutex; the worker then blocks although the flag is set.
\<close>

theorem destructor_writes_quit_unlocked:
  "run (replicate 2 (Sched (Worker 0)) @ [Call 0 Destroy]) (construct ''demo'' 1 1) =
     Some \<lparr>name = ''demo'', lock = Some (Worker 0), threads = [W_sleep], q = [], quit = False,
           clients = [D_quit], pushed = [], popped = [], executed = ([]::nat list)\<rparr> \<and>
   step (Sched (Client 0))
     \<lparr>name = ''demo'', lock = Some (Worker 0), threads = [W_sleep], q = [], quit = False,
      clients = [D_quit], pushed = [], popped = [], executed = ([]::nat list)\<rparr> =
     Some \<lparr>name = ''demo'', lock = Some (Worker 0), threads = [W_sleep], q = [], quit = True,
           clients = [D_join 0], pushed = [], popped = [], executed = []\<rparr> \<and>
   step (Sched (Worker 0))
     \<lparr>name = ''demo'', lock = Some (Worker 0), threads = [W_sleep], q = [], quit = True,
      clients = [D_join 0], pushed = [], popped = [], executed = ([]::nat list)\<rparr> =
     Some \<lparr>name = ''demo'', lock = None, threads = [W_blocked], q = [], quit = True,
           clients = [D_join 0], pushed = [], popped = [], executed = []\<rparr>"
  by (simp add: numeral_eq_Suc step_defs construct_def)

subsection \<open>C5: what a call of \<open>dispatch\<close> does\<close>

text \<open>
  Claim C5: every call of \<open>dispatch\<close> acquires the mutex, appends the task to the tail
  of the queue, releases the mutex, wakes all waiting workers and returns without waiting
  for the task to run. The theorem follows a call from a state in which the mutex is free,
  step by step: the call, the lock, the push, the unlock, the notification. After the last
  step the queue is the old queue with the task at its tail, the mutex is free, no worker
  is blocked on the condition variable, the client is outside the function, and the log of
  executed tasks is the one before the call. In any state, a client past the lock (at
  lines 75, 79 or 80) can take its next step: nothing after the lock blocks.
\<close>

theorem dispatch_locks_pushes_unlocks_notifies:
  assumes "c < length (clients s)" and "clients s ! c = C_idle" and "lock s = None"
    and "d < length (clients t)" and "clients t ! d \<in> {C_push sh' op', C_unlock, C_notify}"
  shows "step (Call c (Dispatch sh op)) s = Some (set_cpc c (C_lock sh op) s) \<and>
         step (Sched (Client c)) (set_cpc c (C_lock sh op) s) =
           Some (set_cpc c (C_push sh op) (s\<lparr>lock := Some (Client c)\<rparr>)) \<and>
         step (Sched (Client c)) (set_cpc c (C_push sh op) (s\<lparr>lock := Some (Client c)\<rparr>)) =
           Some (set_cpc c C_unlock (push op (s\<lparr>lock := Some (Client c)\<rparr>))) \<and>
         step (Sched (Client c)) (set_cpc c C_unlock (push op (s\<lparr>lock := Some (Client c)\<rparr>))) =
           Some (set_cpc c C_notify (push op s)) \<and>
         step (Sched (Client c)) (set_cpc c C_notify (push op s)) = Some (notify_all (push op s)) \<and>
         run (submit c sh op) s = Some (notify_all (push op s)) \<and>
         q (notify_all (push op s)) = q s @ [op] \<and>
         lock (notify_all (push op s)) = None \<and>
         threads (notify_all (push op s)) = map wake (threads s) \<and>
         W_blocked \<notin> set (threads (notify_all (push op s))) \<and>
         clients (notify_all (push op s)) ! c = C_idle \<and>
         executed (notify_all (push op s)) = executed s \<and>
         step (Sched (Client d)) t \<noteq> None"
proof -
  have 1: "step (Call c (Dispatch sh op)) s = Some (set_cpc c (C_lock sh op) s)"
    using assms(1,2) by (simp add: call_def)
  have 2: "step (Sched (Client c)) (set_cpc c (C_lock sh op) s) =
           Some (set_cpc c (C_push sh op) (s\<lparr>lock := Some (Client c)\<rparr>))"
    using assms(1,3) by (simp add: client_step_def set_cpc_def)
  have 3: "step (Sched (Client c)) (set_cpc c (C_push sh op) (s\<lparr>lock := Some (Client c)\<rparr>)) =
           Some (set_cpc c C_unlock (push op (s\<lparr>lock := Some (Client c)\<rparr>)))"
    using assms(1) by (cases sh) (simp_all add: client_step_def set_cpc_def push_def)
  have "set_cpc c C_notify (push op (s\<lparr>lock := Some (Client c)\<rparr>)\<lparr>lock := None\<rparr>) =
        set_cpc c C_notify (push op s)"
    using assms(3) by (intro dispatch_queue.equality) (simp_all add: set_cpc_def push_def)
  then have 4: "step (Sched (Client c))
                  (set_cpc c C_unlock (push op (s\<lparr>lock := Some (Client c)\<rparr>))) =
                Some (set_cpc c C_notify (push op s))"
    using assms(1) by (simp add: client_step_def set_cpc_def push_def)
  have "set_cpc c C_idle (notify_all (push op s)) = notify_all (push op s)"
    using assms(1,2)
    by (intro dispatch_queue.equality)
       (simp_all add: set_cpc_def push_def notify_all_def list_update_same_conv)
  then have 5: "step (Sched (Client c)) (set_cpc c C_notify (push op s)) =
                Some (notify_all (push op s))"
    using assms(1) by (simp add: client_step_def set_cpc_def push_def notify_all_def)
  have 6: "run (submit c sh op) s = Some (notify_all (push op s))"
    using assms(1,2,3) by (rule dispatch_run)
  have 7: "q (notify_all (push op s)) = q s @ [op]" "lock (notify_all (push op s)) = None"
    "threads (notify_all (push op s)) = map wake (threads s)"
    "clients (notify_all (push op s)) ! c = C_idle"
    "executed (notify_all (push op s)) = executed s"
    using assms(2,3) by (simp_all add: notify_all_def push_def)
  have 8: "W_blocked \<notin> set (threads (notify_all (push op s)))"
    using wake_not_blocked[of "threads s"] by (simp add: notify_all_def push_def)
  have 9: "step (Sched (Client d)) t \<noteq> None"
    using assms(4,5) by (cases sh') (auto simp: client_step_def)
  from 1 2 3 4 5 6 7 8 9 show ?thesis by simp
qed

text \<open>A call of the copying overload while the only worker is blocked in \<open>wait\<close>.\<close>

theorem dispatch_locks_pushes_unlocks_notifies_witness:
  "run (replicate 3 (Sched (Worker 0))) (construct ''demo'' 1 1) =
     Some \<lparr>name = ''demo'', lock = None, threads = [W_blocked], q = [], quit = False,
           clients = [C_idle], pushed = [], popped = [], executed = ([]::nat list)\<rparr> \<and>
   run (submit 0 Copy 7)
     \<lparr>name = ''demo'', lock = None, threads = [W_blocked], q = [], quit = False,
      clients = [C_idle], pushed = [], popped = [], executed = ([]::nat list)\<rparr> =
     Some \<lparr>name = ''demo'', lock = None, threads = [W_woken], q = [7], quit = False,
           clients = [C_idle], pushed = [7], popped = [], executed = []\<rparr> \<and>
   step (Sched (Client 0))
     \<lparr>name = ''demo'', lock = Some (Client 0), threads = [W_blocked], q = [7::nat],
      quit = False, clients = [C_unlock], pushed = [7], popped = [], executed = []\<rparr> \<noteq> None"
  using dispatch_locks_pushes_unlocks_notifies
    [of 0 "\<lparr>name = ''demo'', lock = None, threads = [W_blocked], q = [], quit = False,
            clients = [C_idle], pushed = [], popped = [], executed = ([]::nat list)\<rparr>"
        0 "\<lparr>name = ''demo'', lock = Some (Client 0), threads = [W_blocked], q = [7::nat],
            quit = False, clients = [C_unlock], pushed = [7], popped = [], executed = []\<rparr>"
        Copy 7 Copy 7]
  by (simp add: numeral_eq_Suc step_defs construct_def)

subsection \<open>C6: first in, first out\<close>

text \<open>
  Claim C6 says that the tasks a single producer submits are dequeued, and begin execution,
  in the order of submission. The worker pops under the mutex (lines 107 and 108) and calls
  the task after releasing it (lines 111 and 113), so two workers can call their tasks in
  the other order. C6 as amended: with a single producer thread, in every reachable state
  the tasks popped so far followed by the queue are an initial segment of the submissions
  in the order of the calls, and the queue is exactly the pushed tasks that were not popped;
  with at most one worker the tasks called so far are an initial segment of the tasks
  popped.
\<close>

theorem fifo_dequeue_order:
  assumes "run es (construct nm n 1) = Some s"
  shows "prefix (popped s @ q s) (submissions es) \<and> pushed s = popped s @ q s \<and>
         (n \<le> 1 \<longrightarrow> prefix (executed s) (popped s))"
proof -
  have "clients (construct nm n 1 :: 'a dispatch_queue) = [C_idle]"
    "pushed (construct nm n 1 :: 'a dispatch_queue) = []"
    by (simp_all add: construct_def)
  with sub1_run[OF assms, of C_idle] obtain pc' where
    "pushed s @ pend pc' = submissions es" by auto
  then have p: "prefix (pushed s) (submissions es)" by (metis prefixI)
  have "fifo_inv s"
    using run_invariant[of fifo_inv, OF fifo_inv_step fifo_inv_construct assms] .
  then have f: "pushed s = popped s @ q s" by (simp add: fifo_inv_def)
  have "n \<le> 1 \<longrightarrow> prefix (executed s) (popped s)"
  proof
    assume "n \<le> 1"
    then have "one_worker_inv s"
      using run_invariant[of one_worker_inv, OF one_worker_step one_worker_construct assms]
      by simp
    then show "prefix (executed s) (popped s)" by (simp add: one_worker_inv_def)
  qed
  with p f show ?thesis by simp
qed

text \<open>One worker, three submissions: the first was called, the second is held.\<close>

theorem fifo_dequeue_order_witness:
  "run (submit 0 Move (1::nat) @ submit 0 Copy 2 @ submit 0 Move 3 @
        replicate 9 (Sched (Worker 0))) (construct ''demo'' 1 1) =
     Some \<lparr>name = ''demo'', lock = Some (Worker 0), threads = [W_unlock 2], q = [3],
           quit = False, clients = [C_idle], pushed = [1, 2, 3], popped = [1, 2],
           executed = [1]\<rparr> \<and>
   prefix ([1, 2] @ [3]) (submissions (submit 0 Move (1::nat) @ submit 0 Copy 2 @
        submit 0 Move 3 @ replicate 9 (Sched (Worker 0)))) \<and>
   (1::nat) \<le> 1 \<and> prefix [1::nat] [1, 2]"
  using fifo_dequeue_order
    [of "submit 0 Move (1::nat) @ submit 0 Copy 2 @ submit 0 Move 3 @
         replicate 9 (Sched (Worker 0))" "''demo''" 1
        "\<lparr>name = ''demo'', lock = Some (Worker 0), threads = [W_unlock 2], q = [3],
          quit = False, clients = [C_idle], pushed = [1, 2, 3], popped = [1, 2],
          executed = [1]\<rparr>"]
  by (simp add: submit_def numeral_eq_Suc step_defs construct_def)

text \<open>
  The claim as stated fails: with two workers, the first pops task 1 and the second pops
  task 2; the second worker calls its task before the first does.
\<close>

theorem fifo_execution_counterexample:
  "run (submit 0 Move (1::nat) @ submit 0 Move 2 @ replicate 4 (Sched (Worker 0)) @
        replicate 5 (Sched (Worker 1)) @ [Sched (Worker 0)]) (construct ''demo'' 2 1) =
   Some \<lparr>name = ''demo'', lock = None, threads = [W_relock, W_relock], q = [], quit = False,
         clients = [C_idle], pushed = [1, 2], popped = [1, 2], executed = [2, 1]\<rparr>"
  by (simp add: submit_def numeral_eq_Suc step_defs construct_def)

subsection \<open>C7: how often a task is executed\<close>

text \<open>
  Claim C7 says that each submitted task is executed exactly once, never zero times and
  never twice. Never twice holds; never zero holds up to the worker count only, since a
  worker returns on the quit flag after one more task. C7 as amended: in every reachable
  state of every interleaving, each task passed to \<open>dispatch\<close> is in exactly one place:
  not yet pushed by its client, in the queue, held by one worker that has popped it and
  not finished calling it, or executed; so no task is executed twice. When the tasks were
  submitted by one thread and its destructor has returned, either every task has been
  executed exactly once or at least as many tasks as there are workers have been; so with
  at most as many tasks as workers every task is executed exactly once, and with more
  tasks than workers a task that is still in the queue was executed zero times.
\<close>

theorem executed_once_up_to_worker_count:
  assumes "run es (construct nm n k) = Some s"
  shows "mset (submissions es) =
           mset (executed s) + mset (inflight (threads s)) + mset (q s) +
           mset (pending (clients s)) \<and>
         mset (executed s) \<subseteq># mset (submissions es) \<and>
         (k = 1 \<and> clients s ! 0 = C_gone \<longrightarrow>
            (mset (executed s) = mset (submissions es) \<or> n \<le> length (executed s)) \<and>
            (length (submissions es) \<le> n \<longrightarrow> mset (executed s) = mset (submissions es)))"
proof -
  have "mset (pushed s) + mset (pending (clients s)) = mset (submissions es)"
    using sub_run[OF assms] by (simp add: construct_def pending_start)
  moreover have "fifo_inv s"
    using run_invariant[of fifo_inv, OF fifo_inv_step fifo_inv_construct assms] .
  moreover have "once_inv s"
    using run_invariant[of once_inv, OF once_inv_step once_inv_construct assms] .
  ultimately have e: "mset (submissions es) =
      mset (executed s) + mset (inflight (threads s)) + mset (q s) + mset (pending (clients s))"
    by (simp add: fifo_inv_def once_inv_def)
  then have i: "mset (executed s) \<subseteq># mset (submissions es)"
    by (simp add: add.assoc)
  have g: "k = 1 \<and> clients s ! 0 = C_gone \<longrightarrow>
      (mset (executed s) = mset (submissions es) \<or> n \<le> length (executed s)) \<and>
      (length (submissions es) \<le> n \<longrightarrow> mset (executed s) = mset (submissions es))"
  proof
    assume a: "k = 1 \<and> clients s ! 0 = C_gone"
    with assms have r: "run es (construct nm n 1) = Some s" by simp
    from a have z: "clients s ! 0 = C_gone" by simp
    from drained_or_busy[OF r z] all_complete[OF r z]
    show "(mset (executed s) = mset (submissions es) \<or> n \<le> length (executed s)) \<and>
          (length (submissions es) \<le> n \<longrightarrow> mset (executed s) = mset (submissions es))"
      by blast
  qed
  from e i g show ?thesis by simp
qed

text \<open>
  Two workers, two tasks submitted by one client: the workers call the tasks in the order
  2, 1, the destructor runs and returns; each task was executed once.
\<close>

theorem executed_once_up_to_worker_count_witness:
  "run (submit 0 Move (1::nat) @ submit 0 Copy 2 @ replicate 4 (Sched (Worker 0)) @
        replicate 5 (Sched (Worker 1)) @ [Sched (Worker 0)] @
        [Call 0 Destroy, Sched (Client 0)] @ replicate 2 (Sched (Worker 0)) @
        replicate 2 (Sched (Worker 1)) @ replicate 3 (Sched (Client 0)))
     (construct ''demo'' 2 1) =
     Some \<lparr>name = ''demo'', lock = None, threads = [W_done, W_done], q = [], quit = True,
           clients = [C_gone], pushed = [1, 2], popped = [1, 2], executed = [2, 1]\<rparr> \<and>
   (1::nat) = 1 \<and>
   length (submissions (submit 0 Move (1::nat) @ submit 0 Copy 2 @
        replicate 4 (Sched (Worker 0)) @ replicate 5 (Sched (Worker 1)) @ [Sched (Worker 0)] @
        [Call 0 Destroy, Sched (Client 0)] @ replicate 2 (Sched (Worker 0)) @
        replicate 2 (Sched (Worker 1)) @ replicate 3 (Sched (Client 0)))) \<le> 2 \<and>
   mset [2::nat, 1] = mset (submissions (submit 0 Move (1::nat) @ submit 0 Copy 2 @
        replicate 4 (Sched (Worker 0)) @ replicate 5 (Sched (Worker 1)) @ [Sched (Worker 0)] @
        [Call 0 Destroy, Sched (Client 0)] @ replicate 2 (Sched (Worker 0)) @
        replicate 2 (Sched (Worker 1)) @ replicate 3 (Sched (Client 0)))) \<and>
   mset [2::nat, 1] \<subseteq># mset [1, 2]"
  using executed_once_up_to_worker_count
    [of "submit 0 Move (1::nat) @ submit 0 Copy 2 @ replicate 4 (Sched (Worker 0)) @
         replicate 5 (Sched (Worker 1)) @ [Sched (Worker 0)] @
         [Call 0 Destroy, Sched (Client 0)] @ replicate 2 (Sched (Worker 0)) @
         replicate 2 (Sched (Worker 1)) @ replicate 3 (Sched (Client 0))" "''demo''" 2 1
        "\<lparr>name = ''demo'', lock = None, threads = [W_done, W_done], q = [], quit = True,
          clients = [C_gone], pushed = [1, 2], popped = [1, 2], executed = [2, 1]\<rparr>"]
  by (simp add: submit_def submissions_def numeral_eq_Suc step_defs construct_def)

text \<open>
  The claim as stated fails when there are more tasks than workers: two workers, three
  tasks submitted, then the destructor. Each worker calls one task and returns on the quit
  flag; the destructor returns, and the third task was executed zero times.
\<close>

theorem exactly_once_counterexample:
  "run (submit 0 Move (1::nat) @ submit 0 Move 2 @ submit 0 Move 3 @
        [Call 0 Destroy, Sched (Client 0)] @ replicate 7 (Sched (Worker 0)) @
        replicate 7 (Sched (Worker 1)) @ replicate 3 (Sched (Client 0)))
     (construct ''demo'' 2 1) =
   Some \<lparr>name = ''demo'', lock = None, threads = [W_done, W_done], q = [3], quit = True,
         clients = [C_gone], pushed = [1, 2, 3], popped = [1, 2], executed = [1, 2]\<rparr>"
  by (simp add: submit_def numeral_eq_Suc step_defs construct_def)

subsection \<open>C8: the two overloads of \<open>dispatch\<close>\<close>

text \<open>
  Claim C8: the copying overload (lines 72 to 81) and the moving overload (lines 83 to 92)
  are equivalent. For every task, every state and every continuation of the interleaving,
  a call of one and a call of the other either both cannot proceed or lead to states that
  differ at most in the tag of the overload that a client inside \<open>dispatch\<close> carries: the
  queue, the program counters of the workers (so which workers were woken), the mutex, the
  quit flag and the logs are the same. A call that is not interrupted ends in the same
  state for both.
\<close>

theorem dispatch_shapes_equivalent:
  "map_option forget (run (Call c (Dispatch Copy op) # es) s) =
     map_option forget (run (Call c (Dispatch Move op) # es) s) \<and>
   map_option q (run (Call c (Dispatch Copy op) # es) s) =
     map_option q (run (Call c (Dispatch Move op) # es) s) \<and>
   map_option threads (run (Call c (Dispatch Copy op) # es) s) =
     map_option threads (run (Call c (Dispatch Move op) # es) s) \<and>
   map_option lock (run (Call c (Dispatch Copy op) # es) s) =
     map_option lock (run (Call c (Dispatch Move op) # es) s) \<and>
   map_option quit (run (Call c (Dispatch Copy op) # es) s) =
     map_option quit (run (Call c (Dispatch Move op) # es) s) \<and>
   map_option executed (run (Call c (Dispatch Copy op) # es) s) =
     map_option executed (run (Call c (Dispatch Move op) # es) s) \<and>
   run (submit c Copy op) s = run (submit c Move op) s"
proof -
  note f = shapes_forget[of c op es s]
  have "run (submit c Copy op) s = run (submit c Move op) s"
  proof (cases "c < length (clients s) \<and> clients s ! c = C_idle")
    case True
    show ?thesis
    proof (cases "lock s")
      case None
      with True show ?thesis by (simp add: dispatch_run)
    next
      case (Some owner)
      with True show ?thesis
        by (simp add: submit_def numeral_eq_Suc call_def client_step_def set_cpc_def)
    qed
  next
    case False
    then show ?thesis by (auto simp: submit_def call_def)
  qed
  with f forget_proj[OF f] show ?thesis by simp
qed

subsection \<open>C9: a pool without workers\<close>

text \<open>
  Claim C9: constructing the pool with a worker count of zero yields a pool without
  worker threads that accepts submissions and never executes them, and the caller is not
  told. In every state reachable from such a pool there is no worker thread, no task was
  popped or executed, the queue holds every task pushed, and every task submitted is in
  the queue or on its way into it; a call of \<open>dispatch\<close> by an idle client runs to its
  return as usual and leaves the task at the tail of the queue.
\<close>

theorem zero_workers_starve:
  assumes "run es (construct nm 0 k) = Some s"
    and "c < length (clients s)" and "clients s ! c = C_idle" and "lock s = None"
  shows "threads s = [] \<and> executed s = [] \<and> popped s = [] \<and> q s = pushed s \<and>
         mset (submissions es) = mset (q s) + mset (pending (clients s)) \<and>
         run (submit c sh op) s = Some (push op s) \<and>
         q (push op s) = q s @ [op] \<and> clients (push op s) ! c = C_idle"
proof -
  have "no_worker_inv s"
    using run_invariant[of no_worker_inv, OF no_worker_step no_worker_construct assms(1)] .
  then have n: "threads s = []" "executed s = []" "popped s = []"
    by (simp_all add: no_worker_inv_def)
  have "fifo_inv s"
    using run_invariant[of fifo_inv, OF fifo_inv_step fifo_inv_construct assms(1)] .
  with n have f: "q s = pushed s" by (simp add: fifo_inv_def)
  have "mset (pushed s) + mset (pending (clients s)) = mset (submissions es)"
    using sub_run[OF assms(1)] by (simp add: construct_def pending_start)
  with f have m: "mset (submissions es) = mset (q s) + mset (pending (clients s))" by simp
  have "notify_all (push op s) = push op s"
    using n(1) by (intro dispatch_queue.equality) (simp_all add: notify_all_def push_def)
  with dispatch_run[OF assms(2,3,4), of sh op]
  have r: "run (submit c sh op) s = Some (push op s)" by simp
  from n f m r assms(3) show ?thesis by (simp add: push_def)
qed

text \<open>A pool without workers after one submission, and a second submission.\<close>

theorem zero_workers_starve_witness:
  "run (submit 0 Move (1::nat)) (construct ''demo'' 0 1) =
     Some \<lparr>name = ''demo'', lock = None, threads = [], q = [1], quit = False,
           clients = [C_idle], pushed = [1], popped = [], executed = []\<rparr> \<and>
   run (submit 0 Copy 2)
     \<lparr>name = ''demo'', lock = None, threads = [], q = [1::nat], quit = False,
      clients = [C_idle], pushed = [1], popped = [], executed = []\<rparr> =
     Some \<lparr>name = ''demo'', lock = None, threads = [], q = [1, 2], quit = False,
           clients = [C_idle], pushed = [1, 2], popped = [], executed = []\<rparr>"
  using zero_workers_starve
    [of "submit 0 Move (1::nat)" "''demo''" 1
        "\<lparr>name = ''demo'', lock = None, threads = [], q = [1], quit = False,
          clients = [C_idle], pushed = [1], popped = [], executed = []\<rparr>" 0 Copy 2]
  by (simp add: submit_def numeral_eq_Suc step_defs construct_def)

subsection \<open>C10: \<open>dispatch\<close> and the quit flag\<close>

text \<open>
  Claim C10: \<open>dispatch\<close> appends the task in every state, also after the quit flag has
  been set; it never reads the flag and never rejects a submission. For every value \<open>b\<close>
  of the flag, a call from a state with the flag set to \<open>b\<close> runs to its return and ends
  in the state that the same call reaches from the state without that assignment, with the
  flag set to \<open>b\<close>: the task is at the tail of the queue and the flag did not matter. In
  every state whatsoever, the step at line 75 or 86 appends the task.
\<close>

theorem dispatch_never_reads_quit:
  assumes "c < length (clients s)" and "clients s ! c = C_idle" and "lock s = None"
    and "d < length (clients t)" and "clients t ! d = C_push sh' op'"
  shows "run (submit c sh op) (s\<lparr>quit := b\<rparr>) = Some ((notify_all (push op s))\<lparr>quit := b\<rparr>) \<and>
         q ((notify_all (push op s))\<lparr>quit := b\<rparr>) = q s @ [op] \<and>
         quit ((notify_all (push op s))\<lparr>quit := b\<rparr>) = b \<and>
         step (Sched (Client d)) t = Some (set_cpc d C_unlock (push op' t)) \<and>
         q (set_cpc d C_unlock (push op' t)) = q t @ [op'] \<and>
         quit (set_cpc d C_unlock (push op' t)) = quit t"
proof -
  have "notify_all (push op (s\<lparr>quit := b\<rparr>)) = (notify_all (push op s))\<lparr>quit := b\<rparr>"
    by (simp add: notify_all_def push_def)
  with dispatch_run[of c "s\<lparr>quit := b\<rparr>" sh op] assms(1,2,3)
  have r: "run (submit c sh op) (s\<lparr>quit := b\<rparr>) = Some ((notify_all (push op s))\<lparr>quit := b\<rparr>)"
    by simp
  have p: "step (Sched (Client d)) t = Some (set_cpc d C_unlock (push op' t))"
    using assms(4,5) by (cases sh') (simp_all add: client_step_def)
  from r p show ?thesis by (simp add: notify_all_def push_def set_cpc_def)
qed

text \<open>
  A second client submits after the destructor, called by the first client, has set the
  quit flag and waits in \<open>join\<close>.
\<close>

theorem dispatch_never_reads_quit_witness:
  "run [Call 0 Destroy, Sched (Client 0)] (construct ''demo'' 1 2) =
     Some \<lparr>name = ''demo'', lock = None, threads = [W_lock], q = [], quit = True,
           clients = [D_join 0, C_idle], pushed = [], popped = [], executed = ([]::nat list)\<rparr> \<and>
   run (submit 1 Move 5)
     \<lparr>name = ''demo'', lock = None, threads = [W_lock], q = [], quit = True,
      clients = [D_join 0, C_idle], pushed = [], popped = [], executed = ([]::nat list)\<rparr> =
     Some \<lparr>name = ''demo'', lock = None, threads = [W_lock], q = [5], quit = True,
           clients = [D_join 0, C_idle], pushed = [5], popped = [], executed = []\<rparr> \<and>
   step (Sched (Client 1))
     \<lparr>name = ''demo'', lock = Some (Client 1), threads = [W_lock], q = [], quit = True,
      clients = [D_join 0, C_push Move 5], pushed = [], popped = [],
      executed = ([]::nat list)\<rparr> =
     Some \<lparr>name = ''demo'', lock = Some (Client 1), threads = [W_lock], q = [5], quit = True,
           clients = [D_join 0, C_unlock], pushed = [5], popped = [], executed = []\<rparr>"
  using dispatch_never_reads_quit
    [of 1 "\<lparr>name = ''demo'', lock = None, threads = [W_lock], q = [], quit = False,
            clients = [D_join 0, C_idle], pushed = [], popped = [],
            executed = ([]::nat list)\<rparr>"
        1 "\<lparr>name = ''demo'', lock = Some (Client 1), threads = [W_lock], q = [], quit = True,
            clients = [D_join 0, C_push Move 5], pushed = [], popped = [],
            executed = ([]::nat list)\<rparr>"
        Move 5 Move 5 True]
  by (simp add: submit_def numeral_eq_Suc step_defs construct_def)

end
